theory Spec2Isabelle
  imports Main "HOL-Library.Sublist"
begin

section \<open>Errors\<close>

text \<open>
  The exceptions the code raises, as values. \<open>TypeError\<close>, \<open>ValueError\<close>,
  \<open>NotImplementedError\<close>, \<open>KeyError\<close> and \<open>IndexError\<close> are Python's own;
  \<open>AxiomError\<close> is imported from \<open>discopy.cat\<close>. The specification names the kinds
  \<open>InvalidArgument\<close> (\<open>TypeError\<close>), \<open>TypeMismatch\<close> (\<open>AxiomError\<close>),
  \<open>ShapeError\<close> (\<open>ValueError\<close>) and \<open>Unsupported\<close> (\<open>NotImplementedError\<close>).
  \<open>InterchangerError\<close> stands for the failure of the interchange primitive of the
  monoidal layer.
\<close>

datatype error =
    TypeError
  | AxiomError
  | ValueError
  | NotImplementedError
  | KeyError
  | IndexError
  | InterchangerError

section \<open>Adjoint objects: class \<open>Ob\<close>\<close>

text \<open>
  An object is a name with a winding number \<open>z\<close> (a Python \<open>int\<close>, unbounded).
  The constructor's check that \<open>z\<close> is an \<open>int\<close> is carried by the type.
\<close>

datatype ob = Ob (name: string) (z: int)

definition Ob_l :: "ob \<Rightarrow> ob" where
  "Ob_l x = Ob (name x) (z x - 1)"

definition Ob_r :: "ob \<Rightarrow> ob" where
  "Ob_r x = Ob (name x) (z x + 1)"

section \<open>Types: class \<open>Ty\<close>\<close>

text \<open>
  A type is the list of its objects. \<open>Ty.l\<close> and \<open>Ty.r\<close> map the adjoint over
  \<open>self.objects[::-1]\<close>.
\<close>

type_synonym ty = "ob list"

definition Ty_l :: "ty \<Rightarrow> ty" where
  "Ty_l t = map Ob_l (rev t)"

definition Ty_r :: "ty \<Rightarrow> ty" where
  "Ty_r t = map Ob_r (rev t)"

text \<open>
  Modelled from the spec: \<open>moncat.Ty.tensor\<close>, which \<open>Ty.tensor\<close> wraps, is not part
  of the source. The specification gives it: the tensor \<open>@\<close> of two types is the
  concatenation of their sequences of objects, with the empty type as unit.
\<close>

definition tensor_ty :: "ty \<Rightarrow> ty \<Rightarrow> ty" where
  "tensor_ty x y = x @ y"

text \<open>Python's slice \<open>t[i:j]\<close> for indices that are not negative; it never raises.\<close>

definition slice :: "'a list \<Rightarrow> nat \<Rightarrow> nat \<Rightarrow> 'a list" where
  "slice t i j = take (j - i) (drop i t)"

text \<open>\<open>t[i]\<close> for an index that is not negative: \<open>IndexError\<close> out of range.\<close>

definition getitem :: "'a list \<Rightarrow> nat \<Rightarrow> error + 'a" where
  "getitem t i = (if i < length t then Inr (t ! i) else Inl IndexError)"

section \<open>Boxes, cups and caps\<close>

text \<open>
  A box carries a name, a domain, a codomain, an opaque payload and the dagger flag.
  \<open>Cup\<close> and \<open>Cap\<close> are subclasses of \<open>Box\<close> (told apart by \<open>isinstance\<close>): a cup
  stores its domain \<open>x @ y\<close> and has the empty codomain, a cap stores its codomain
  \<open>x @ y\<close> and has the empty domain.
\<close>

datatype box =
    Box (box_name: string) ty ty "string option" bool
  | CupBox ty
  | CapBox ty

fun box_dom :: "box \<Rightarrow> ty" where
  "box_dom (Box n d c dt dg) = d"
| "box_dom (CupBox d) = d"
| "box_dom (CapBox c) = []"

fun box_cod :: "box \<Rightarrow> ty" where
  "box_cod (Box n d c dt dg) = c"
| "box_cod (CupBox d) = []"
| "box_cod (CapBox c) = c"

fun is_Cup :: "box \<Rightarrow> bool" where
  "is_Cup (CupBox d) = True"
| "is_Cup b = False"

fun is_Cap :: "box \<Rightarrow> bool" where
  "is_Cap (CapBox c) = True"
| "is_Cap b = False"

text \<open>
  \<open>Cup.__init__\<close> and \<open>Cap.__init__\<close>, for arguments that are types (the two
  \<open>isinstance\<close> checks raising \<open>TypeError\<close> are carried by the type of the
  arguments). The checks are in the order of the source.
\<close>

definition Cup :: "ty \<Rightarrow> ty \<Rightarrow> error + box" where
  "Cup x y =
     (if Ty_r x \<noteq> y \<and> x \<noteq> Ty_r y then Inl AxiomError
      else if length x \<noteq> 1 \<or> length y \<noteq> 1 then Inl ValueError
      else if x = Ty_r y then Inl NotImplementedError
      else Inr (CupBox (tensor_ty x y)))"

definition Cap :: "ty \<Rightarrow> ty \<Rightarrow> error + box" where
  "Cap x y =
     (if x \<noteq> Ty_r y \<and> Ty_r x \<noteq> y then Inl AxiomError
      else if length x \<noteq> 1 \<or> length y \<noteq> 1 then Inl ValueError
      else if Ty_r x = y then Inl NotImplementedError
      else Inr (CapBox (tensor_ty x y)))"

section \<open>Diagrams\<close>

text \<open>
  A diagram has a domain, a codomain, a list of boxes and a list of offsets, one
  offset per box. Offsets are Python integers.
\<close>

record diagram =
  dom_ty :: ty
  cod_ty :: ty
  boxes :: "box list"
  offsets :: "int list"

text \<open>\<open>Id(t)\<close>: no box, domain and codomain \<open>t\<close>.\<close>

definition Id_diagram :: "ty \<Rightarrow> diagram" where
  "Id_diagram t = \<lparr>dom_ty = t, cod_ty = t, boxes = [], offsets = []\<rparr>"

text \<open>\<open>Box.__init__\<close> makes a box the diagram of itself alone, at offset 0.\<close>

definition box_diagram :: "box \<Rightarrow> diagram" where
  "box_diagram b = \<lparr>dom_ty = box_dom b, cod_ty = box_cod b, boxes = [b], offsets = [0]\<rparr>"

text \<open>Sequencing of fallible steps: the first error is the result.\<close>

definition try_then :: "error + 'a \<Rightarrow> ('a \<Rightarrow> error + 'b) \<Rightarrow> error + 'b" where
  "try_then r f = (case r of Inl e \<Rightarrow> Inl e | Inr v \<Rightarrow> f v)"

text \<open>A call succeeds when it returns a value and raises nothing.\<close>

definition succeeds :: "error + 'a \<Rightarrow> bool" where
  "succeeds r = (case r of Inl e \<Rightarrow> False | Inr v \<Rightarrow> True)"

text \<open>
  Modelled from the spec: \<open>cat.Diagram.then\<close> and \<open>moncat.Diagram.tensor\<close>, which
  \<open>Diagram.then\<close> and \<open>Diagram.tensor\<close> wrap and re-type, are not part of the
  source. By the specification \<open>then\<close> requires \<open>self.cod == other.dom\<close> and fails
  with the kind \<open>TypeMismatch\<close> otherwise; the result lists the boxes and offsets
  of the first diagram, then those of the second. \<open>tensor\<close> juxtaposes: the offsets
  of the right-hand diagram are shifted by the width of the codomain of the left-hand
  one (the docstring of \<open>Diagram.cups\<close> and the one of \<open>Diagram.interchange\<close> fix
  this bookkeeping on examples).
\<close>

definition then_diagram :: "diagram \<Rightarrow> diagram \<Rightarrow> error + diagram" where
  "then_diagram f g =
     (if cod_ty f \<noteq> dom_ty g then Inl AxiomError
      else Inr \<lparr>dom_ty = dom_ty f, cod_ty = cod_ty g,
                boxes = boxes f @ boxes g, offsets = offsets f @ offsets g\<rparr>)"

definition tensor :: "diagram \<Rightarrow> diagram \<Rightarrow> diagram" where
  "tensor f g =
     \<lparr>dom_ty = tensor_ty (dom_ty f) (dom_ty g), cod_ty = tensor_ty (cod_ty f) (cod_ty g),
      boxes = boxes f @ boxes g,
      offsets = offsets f @ map (\<lambda>n. n + int (length (cod_ty f))) (offsets g)\<rparr>"

subsection \<open>Nested cups and caps\<close>

text \<open>
  \<open>Diagram.cups(x, y)\<close>: starting from \<open>Id(x @ y)\<close>, for \<open>i\<close> in
  \<open>range(len(x))\<close> and \<open>j = len(x) - i - 1\<close>, compose with
  \<open>Id(x[:j]) @ Cup(x[j:j + 1], y[i:i + 1]) @ Id(y[i + 1:])\<close>. The layer is built
  first (the cup constructor may raise), then composed.
\<close>

definition cups_layer :: "ty \<Rightarrow> ty \<Rightarrow> nat \<Rightarrow> error + diagram" where
  "cups_layer x y i =
     (let j = length x - i - 1 in
      try_then (Cup (slice x j (j + 1)) (slice y i (i + 1)))
        (\<lambda>c. Inr (tensor (tensor (Id_diagram (take j x)) (box_diagram c))
                     (Id_diagram (drop (i + 1) y)))))"

fun cups_loop :: "ty \<Rightarrow> ty \<Rightarrow> nat list \<Rightarrow> diagram \<Rightarrow> error + diagram" where
  "cups_loop x y [] cups = Inr cups"
| "cups_loop x y (i # rest) cups =
     try_then (cups_layer x y i)
       (\<lambda>layer. try_then (then_diagram cups layer) (cups_loop x y rest))"

definition cups :: "ty \<Rightarrow> ty \<Rightarrow> error + diagram" where
  "cups x y = cups_loop x y [0..<length x] (Id_diagram (tensor_ty x y))"

text \<open>
  \<open>Diagram.caps(x, y)\<close>: the same loop with \<open>Cap\<close>, composed on the other side:
  \<open>caps << layer\<close> is \<open>layer >> caps\<close>.
\<close>

definition caps_layer :: "ty \<Rightarrow> ty \<Rightarrow> nat \<Rightarrow> error + diagram" where
  "caps_layer x y i =
     (let j = length x - i - 1 in
      try_then (Cap (slice x j (j + 1)) (slice y i (i + 1)))
        (\<lambda>c. Inr (tensor (tensor (Id_diagram (take j x)) (box_diagram c))
                     (Id_diagram (drop (i + 1) y)))))"

fun caps_loop :: "ty \<Rightarrow> ty \<Rightarrow> nat list \<Rightarrow> diagram \<Rightarrow> error + diagram" where
  "caps_loop x y [] caps = Inr caps"
| "caps_loop x y (i # rest) caps =
     try_then (caps_layer x y i)
       (\<lambda>layer. try_then (then_diagram layer caps) (caps_loop x y rest))"

definition caps :: "ty \<Rightarrow> ty \<Rightarrow> error + diagram" where
  "caps x y = caps_loop x y [0..<length x] (Id_diagram (tensor_ty x y))"

text \<open>The layer \<open>Id(x[:j]) @ c @ Id(y[i + 1:])\<close> of the loops of \<open>cups\<close> and \<open>caps\<close>,
  for the box \<open>c\<close> that the constructor returned.\<close>

definition layer_of :: "ty \<Rightarrow> ty \<Rightarrow> nat \<Rightarrow> box \<Rightarrow> diagram" where
  "layer_of x y i c = tensor (tensor (Id_diagram (take (length x - i - 1) x)) (box_diagram c))
                     (Id_diagram (drop (i + 1) y))"

subsection \<open>Transposes\<close>

text \<open>
  \<open>transpose_r\<close> is
  \<open>caps(dom.r, dom) @ Id(cod.r) >> Id(dom.r) @ self @ Id(cod.r) >> Id(dom.r) @ cups(cod, cod.r)\<close>
  and \<open>transpose_l\<close> is
  \<open>Id(cod.l) @ caps(dom, dom.l) >> Id(cod.l) @ self @ Id(dom.l) >> cups(cod.l, cod) @ Id(dom.l)\<close>,
  evaluated from left to right.
\<close>

definition transpose_r :: "diagram \<Rightarrow> error + diagram" where
  "transpose_r self =
     try_then (caps (Ty_r (dom_ty self)) (dom_ty self)) (\<lambda>cp.
     try_then (then_diagram (tensor cp (Id_diagram (Ty_r (cod_ty self))))
                 (tensor (tensor (Id_diagram (Ty_r (dom_ty self))) self)
                    (Id_diagram (Ty_r (cod_ty self))))) (\<lambda>top.
     try_then (cups (cod_ty self) (Ty_r (cod_ty self))) (\<lambda>cu.
     then_diagram top (tensor (Id_diagram (Ty_r (dom_ty self))) cu))))"

definition transpose_l :: "diagram \<Rightarrow> error + diagram" where
  "transpose_l self =
     try_then (caps (dom_ty self) (Ty_l (dom_ty self))) (\<lambda>cp.
     try_then (then_diagram (tensor (Id_diagram (Ty_l (cod_ty self))) cp)
                 (tensor (tensor (Id_diagram (Ty_l (cod_ty self))) self)
                    (Id_diagram (Ty_l (dom_ty self))))) (\<lambda>top.
     try_then (cups (Ty_l (cod_ty self)) (cod_ty self)) (\<lambda>cu.
     then_diagram top (tensor cu (Id_diagram (Ty_l (dom_ty self)))))))"

subsection \<open>The diagrams of the double snake\<close>

text \<open>
  For objects \<open>x\<close> and \<open>y\<close>: the transpose of \<open>Id(x @ y)\<close>, the tensor of the
  transposes of \<open>Id(y)\<close> and \<open>Id(x)\<close>, and the diagram left when the first snake of
  either is removed.
\<close>

definition double_snake :: "ob \<Rightarrow> ob \<Rightarrow> diagram" where
  "double_snake x y = \<lparr>dom_ty = [Ob_r y, Ob_r x], cod_ty = [Ob_r y, Ob_r x],
      boxes = [CapBox [Ob_r y, y], CapBox [Ob_r x, x], CupBox [y, Ob_r y], CupBox [x, Ob_r x]],
      offsets = [0, 1, 3, 2]\<rparr>"

definition two_snakes :: "ob \<Rightarrow> ob \<Rightarrow> diagram" where
  "two_snakes x y = \<lparr>dom_ty = [Ob_r y, Ob_r x], cod_ty = [Ob_r y, Ob_r x],
      boxes = [CapBox [Ob_r y, y], CupBox [y, Ob_r y], CapBox [Ob_r x, x], CupBox [x, Ob_r x]],
      offsets = [0, 1, 1, 2]\<rparr>"

definition one_snake :: "ob \<Rightarrow> ob \<Rightarrow> diagram" where
  "one_snake x y = \<lparr>dom_ty = [Ob_r y, Ob_r x], cod_ty = [Ob_r y, Ob_r x],
      boxes = [CapBox [Ob_r x, x], CupBox [x, Ob_r x]],
      offsets = [1, 2]\<rparr>"

section \<open>Python values and the equality of objects\<close>

text \<open>
  The values an equality test or a functor can be handed: an adjoint object (an
  instance of \<open>Ob\<close> of this module), an object of the base class \<open>cat.Ob\<close> (a name
  only), a type, a box, a diagram that is not a box, and values of other classes.
\<close>

datatype pyobj =
    PyOb ob
  | PyCatOb string
  | PyTy ty
  | PyBox box
  | PyDiagram diagram
  | PyNone
  | PyInt int
  | PyStr string

fun isinstance_Ob :: "pyobj \<Rightarrow> bool" where
  "isinstance_Ob (PyOb x) = True"
| "isinstance_Ob v = False"

text \<open>\<open>Ob.__eq__\<close>: \<open>False\<close> unless the other value is an \<open>Ob\<close>, then the pairs
  \<open>(name, z)\<close> are compared.\<close>

fun Ob_eq :: "ob \<Rightarrow> pyobj \<Rightarrow> bool" where
  "Ob_eq self (PyOb other) = ((name self, z self) = (name other, z other))"
| "Ob_eq self other = False"

section \<open>Interchange\<close>

text \<open>
  Modelled from the spec: \<open>moncat.Diagram.interchange\<close>, which
  \<open>Diagram.interchange\<close> wraps and re-types, is not part of the source. By the
  specification it exchanges two boxes whose wire footprints do not overlap and fails
  when one consumes an output of the other. For the adjacent positions \<open>i\<close> and
  \<open>i + 1\<close>, with the box \<open>box0\<close> at offset \<open>off0\<close> above the box \<open>box1\<close> at offset
  \<open>off1\<close>: when \<open>box1\<close> lies left of \<open>box0\<close> (\<open>off0 \<ge> off1 + len(box1.dom)\<close>)
  the box \<open>box0\<close> moves by the width change of \<open>box1\<close>; when it lies right
  (\<open>off1 \<ge> off0 + len(box0.cod)\<close>) the box \<open>box1\<close> moves by the width change of
  \<open>box0\<close>; when both hold, \<open>left\<close> chooses. The two printed examples in the
  docstring of \<open>Diagram.interchange\<close> are the two choices. For positions further
  apart the box at \<open>i\<close> is carried to position \<open>j\<close> through adjacent exchanges, as
  the bookkeeping of \<open>move\<close> presupposes (after \<open>interchange(box, cap)\<close> the cap and
  the boxes between are one position further). A position out of range is an
  \<open>IndexError\<close>.
\<close>

definition exchange :: "diagram \<Rightarrow> nat \<Rightarrow> bool \<Rightarrow> error + diagram" where
  "exchange d i left =
     (let box0 = boxes d ! i; box1 = boxes d ! (i + 1);
          off0 = offsets d ! i; off1 = offsets d ! (i + 1);
          swapped = (\<lambda>o1 o0. d\<lparr>boxes := take i (boxes d) @ [box1, box0] @ drop (i + 2) (boxes d),
                                offsets := take i (offsets d) @ [o1, o0] @ drop (i + 2) (offsets d)\<rparr>)
      in if left \<and> off1 \<ge> off0 + int (length (box_cod box0))
         then Inr (swapped (off1 - int (length (box_cod box0)) + int (length (box_dom box0))) off0)
         else if off0 \<ge> off1 + int (length (box_dom box1))
         then Inr (swapped off1 (off0 - int (length (box_dom box1)) + int (length (box_cod box1))))
         else if off1 \<ge> off0 + int (length (box_cod box0))
         then Inr (swapped (off1 - int (length (box_cod box0)) + int (length (box_dom box0))) off0)
         else Inl InterchangerError)"

fun exchanges :: "diagram \<Rightarrow> nat list \<Rightarrow> bool \<Rightarrow> error + diagram" where
  "exchanges d [] left = Inr d"
| "exchanges d (k # ks) left = try_then (exchange d k left) (\<lambda>d'. exchanges d' ks left)"

definition moncat_interchange :: "diagram \<Rightarrow> int \<Rightarrow> int \<Rightarrow> bool \<Rightarrow> error + diagram" where
  "moncat_interchange d i j left =
     (if \<not> (0 \<le> i \<and> i < int (length (boxes d)) \<and> 0 \<le> j \<and> j < int (length (boxes d)))
      then Inl IndexError
      else if i \<le> j then exchanges d [nat i..<nat j] left
      else exchanges d (rev [nat j..<nat i]) left)"

text \<open>\<open>Diagram.interchange\<close>: the result of the monoidal layer, re-typed.\<close>

definition interchange :: "diagram \<Rightarrow> int \<Rightarrow> int \<Rightarrow> bool \<Rightarrow> error + diagram" where
  "interchange d i j left =
     try_then (moncat_interchange d i j left)
       (\<lambda>result. Inr \<lparr>dom_ty = dom_ty result, cod_ty = cod_ty result,
                        boxes = boxes result, offsets = offsets result\<rparr>)"

section \<open>Normalisation\<close>

subsection \<open>\<open>follow_wire\<close>\<close>

text \<open>
  The \<open>while\<close> loop of \<open>follow_wire\<close>, with the two lists of obstructions as
  accumulators. The index \<open>i\<close> is a position of the diagram (\<open>find_move\<close> passes a
  value of \<open>range(len(diagram))\<close>); the wire offset \<open>j\<close> is an integer.
\<close>

function follow_wire_loop ::
  "diagram \<Rightarrow> nat \<Rightarrow> int \<Rightarrow> nat list \<Rightarrow> nat list \<Rightarrow> nat \<times> int \<times> (nat list \<times> nat list)" where
  "follow_wire_loop d i j left_obstruction right_obstruction =
     (if int i < int (length (boxes d)) - 1 then
        (if offsets d ! (i + 1) \<le> j
            \<and> j < offsets d ! (i + 1) + int (length (box_dom (boxes d ! (i + 1))))
         then (i + 1, j, (left_obstruction, right_obstruction))
         else if offsets d ! (i + 1) \<le> j
         then follow_wire_loop d (i + 1)
                (j + (int (length (box_cod (boxes d ! (i + 1))))
                      - int (length (box_dom (boxes d ! (i + 1))))))
                (left_obstruction @ [i + 1]) right_obstruction
         else follow_wire_loop d (i + 1) j left_obstruction (right_obstruction @ [i + 1]))
      else (length (boxes d), j, (left_obstruction, right_obstruction)))"
  by pat_completeness auto
termination
  by (relation "measure (\<lambda>(d, i, j, l, r). length (boxes d) - i)") auto

declare follow_wire_loop.simps [simp del]

definition follow_wire :: "diagram \<Rightarrow> nat \<Rightarrow> int \<Rightarrow> nat \<times> int \<times> (nat list \<times> nat list)" where
  "follow_wire d i j = follow_wire_loop d i j [] []"

subsection \<open>\<open>find_move\<close>\<close>

text \<open>
  One leg of the cap at position \<open>cap\<close>: the left leg (\<open>left_snake\<close>) starts at the
  offset of the cap, the right leg one further.
\<close>

definition try_leg ::
  "diagram \<Rightarrow> nat \<Rightarrow> bool \<Rightarrow> (nat \<times> nat \<times> (nat list \<times> nat list) \<times> bool) option" where
  "try_leg d cap left_snake =
     (case follow_wire d cap (if left_snake then offsets d ! cap else offsets d ! cap + 1) of
        (cup, wire, obstructions) \<Rightarrow>
          (if cup = length (boxes d)
              \<or> \<not> is_Cup (boxes d ! cup)
              \<or> (left_snake \<and> offsets d ! cup + 1 \<noteq> wire)
              \<or> (\<not> left_snake \<and> offsets d ! cup \<noteq> wire)
           then None
           else Some (cup, cap, obstructions, left_snake)))"

fun find_move_from ::
  "diagram \<Rightarrow> nat list \<Rightarrow> (nat \<times> nat \<times> (nat list \<times> nat list) \<times> bool) option" where
  "find_move_from d [] = None"
| "find_move_from d (cap # rest) =
     (if \<not> is_Cap (boxes d ! cap) then find_move_from d rest
      else (case try_leg d cap True of
              Some found \<Rightarrow> Some found
            | None \<Rightarrow>
                (case try_leg d cap False of
                   Some found \<Rightarrow> Some found
                 | None \<Rightarrow> find_move_from d rest)))"

definition find_move ::
  "diagram \<Rightarrow> (nat \<times> nat \<times> (nat list \<times> nat list) \<times> bool) option" where
  "find_move d = find_move_from d [0..<length (boxes d)]"

subsection \<open>\<open>move\<close>\<close>

text \<open>
  A generator is modelled by the list of the values it yields and the exception that
  ended it, if any. Inside \<open>move\<close> the positions are Python integers (\<open>cup\<close> is
  decremented), and the slices \<open>xs[:k]\<close> and \<open>xs[k:]\<close> count a negative \<open>k\<close> from
  the end.
\<close>

definition py_take :: "'a list \<Rightarrow> int \<Rightarrow> 'a list" where
  "py_take xs k = (if 0 \<le> k then take (nat k) xs else take (nat (int (length xs) + k)) xs)"

definition py_drop :: "'a list \<Rightarrow> int \<Rightarrow> 'a list" where
  "py_drop xs k = (if 0 \<le> k then drop (nat k) xs else drop (nat (int (length xs) + k)) xs)"

text \<open>Left snake, first loop: the left obstructions pass above the cap.\<close>

fun left_snake_left ::
  "diagram \<Rightarrow> int list \<Rightarrow> int \<Rightarrow> int list \<Rightarrow> diagram list \<times> (error + diagram \<times> int \<times> int list)" where
  "left_snake_left d [] cap right_obstruction = ([], Inr (d, cap, right_obstruction))"
| "left_snake_left d (box # rest) cap right_obstruction =
     (case interchange d box cap False of
        Inl e \<Rightarrow> ([], Inl e)
      | Inr d' \<Rightarrow>
          (case left_snake_left d' rest (cap + 1)
                  (map (\<lambda>right_box. if right_box < box then right_box + 1 else right_box)
                     right_obstruction) of
             (ys, r) \<Rightarrow> (d' # ys, r)))"

text \<open>Left snake, second loop: the right obstructions, last first, pass below the cup.\<close>

fun left_snake_right ::
  "diagram \<Rightarrow> int list \<Rightarrow> int \<Rightarrow> diagram list \<times> (error + diagram \<times> int)" where
  "left_snake_right d [] cup = ([], Inr (d, cup))"
| "left_snake_right d (box # rest) cup =
     (case interchange d box cup False of
        Inl e \<Rightarrow> ([], Inl e)
      | Inr d' \<Rightarrow> (case left_snake_right d' rest (cup - 1) of (ys, r) \<Rightarrow> (d' # ys, r)))"

text \<open>Right snake, first loop: the left obstructions, last first, pass below the cup.\<close>

fun right_snake_left ::
  "diagram \<Rightarrow> int list \<Rightarrow> int \<Rightarrow> int list \<Rightarrow> diagram list \<times> (error + diagram \<times> int \<times> int list)" where
  "right_snake_left d [] cup right_obstruction = ([], Inr (d, cup, right_obstruction))"
| "right_snake_left d (box # rest) cup right_obstruction =
     (case interchange d box cup False of
        Inl e \<Rightarrow> ([], Inl e)
      | Inr d' \<Rightarrow>
          (case right_snake_left d' rest (cup - 1)
                  (map (\<lambda>right_box. if right_box > box then right_box - 1 else right_box)
                     right_obstruction) of
             (ys, r) \<Rightarrow> (d' # ys, r)))"

text \<open>Right snake, second loop: the right obstructions pass above the cap.\<close>

fun right_snake_right ::
  "diagram \<Rightarrow> int list \<Rightarrow> int \<Rightarrow> diagram list \<times> (error + diagram \<times> int)" where
  "right_snake_right d [] cap = ([], Inr (d, cap))"
| "right_snake_right d (box # rest) cap =
     (case interchange d box cap False of
        Inl e \<Rightarrow> ([], Inl e)
      | Inr d' \<Rightarrow> (case right_snake_right d' rest (cap + 1) of (ys, r) \<Rightarrow> (d' # ys, r)))"

text \<open>The last step of \<open>move\<close>: the boxes from \<open>cap\<close> to \<open>cup\<close> are cut out.\<close>

definition cut :: "diagram \<Rightarrow> int \<Rightarrow> int \<Rightarrow> diagram" where
  "cut d cup cap =
     \<lparr>dom_ty = dom_ty d, cod_ty = cod_ty d,
      boxes = py_take (boxes d) cap @ py_drop (boxes d) (cup + 1),
      offsets = py_take (offsets d) cap @ py_drop (offsets d) (cup + 1)\<rparr>"

definition move ::
  "diagram \<Rightarrow> int \<Rightarrow> int \<Rightarrow> int list \<times> int list \<Rightarrow> bool \<Rightarrow> diagram list \<times> error option" where
  "move d cup cap obstructions left_snake =
     (case obstructions of (left_obstruction, right_obstruction) \<Rightarrow>
        if left_snake then
          (case left_snake_left d left_obstruction cap right_obstruction of
             (ys, Inl e) \<Rightarrow> (ys, Some e)
           | (ys, Inr (d1, cap1, right1)) \<Rightarrow>
               (case left_snake_right d1 (rev right1) cup of
                  (zs, Inl e) \<Rightarrow> (ys @ zs, Some e)
                | (zs, Inr (d2, cup2)) \<Rightarrow> (ys @ zs @ [cut d2 cup2 cap1], None)))
        else
          (case right_snake_left d (rev left_obstruction) cup right_obstruction of
             (ys, Inl e) \<Rightarrow> (ys, Some e)
           | (ys, Inr (d1, cup1, right1)) \<Rightarrow>
               (case right_snake_right d1 right1 cap of
                  (zs, Inl e) \<Rightarrow> (ys @ zs, Some e)
                | (zs, Inr (d2, cap2)) \<Rightarrow> (ys @ zs @ [cut d2 cup1 cap2], None))))"

subsection \<open>\<open>normalize\<close> and \<open>normal_form\<close>\<close>

text \<open>
  The \<open>while True\<close> loop of \<open>normalize\<close>: the diagrams yielded, and the diagram the
  loop ends with or the exception raised. The loop may not return: the result
  \<open>None\<close> is the run that never ends. The positions found by \<open>find_move\<close> are handed
  to \<open>move\<close> as integers. After a pass of \<open>move\<close> the current diagram is the last one
  yielded.
\<close>

partial_function (option) remove_snakes ::
  "diagram \<Rightarrow> (diagram list \<times> (error + diagram)) option" where
  "remove_snakes d =
     (case find_move d of
        None \<Rightarrow> Some ([], Inr d)
      | Some yankable \<Rightarrow>
          (case move d (int (fst yankable)) (int (fst (snd yankable)))
                  (map int (fst (fst (snd (snd yankable)))),
                   map int (snd (fst (snd (snd yankable)))))
                  (snd (snd (snd yankable))) of
             (ys, Some e) \<Rightarrow> Some (ys, Inl e)
           | (ys, None) \<Rightarrow>
               Option.bind (remove_snakes (last (d # ys)))
                 (\<lambda>(zs, r). Some (ys @ zs, r))))"

text \<open>
  \<open>Diagram.normalize\<close>: the loop above, then the diagrams yielded by
  \<open>moncat.Diagram.normalize\<close> on the diagram the loop ended with. The normaliser of
  the monoidal layer is not part of the source: it is the parameter \<open>monoidal\<close>, a
  generator given by the diagrams it yields and the exception that ended it, if any,
  or by \<open>None\<close> when it never ends; then \<open>normalize\<close> never ends either.
\<close>

definition normalize ::
  "(diagram \<Rightarrow> bool \<Rightarrow> (diagram list \<times> error option) option) \<Rightarrow> diagram \<Rightarrow> bool
     \<Rightarrow> (diagram list \<times> error option) option" where
  "normalize monoidal self left =
     (case remove_snakes self of
        None \<Rightarrow> None
      | Some (ys, Inl e) \<Rightarrow> Some (ys, Some e)
      | Some (ys, Inr d) \<Rightarrow>
          (case monoidal d left of
             None \<Rightarrow> None
           | Some (zs, st) \<Rightarrow> Some (ys @ zs, st)))"

text \<open>
  Modelled from the spec: \<open>moncat.Diagram.normal_form\<close>, which \<open>Diagram.normal_form\<close>
  calls, is not part of the source. By the specification it drains the sequence of
  \<open>normalize\<close> and returns only the last diagram; when nothing is yielded the diagram
  itself is returned.
\<close>

definition normal_form ::
  "(diagram \<Rightarrow> bool \<Rightarrow> (diagram list \<times> error option) option) \<Rightarrow> diagram \<Rightarrow> bool
     \<Rightarrow> (error + diagram) option" where
  "normal_form monoidal self left =
     (case normalize monoidal self left of
        None \<Rightarrow> None
      | Some (ys, Some e) \<Rightarrow> Some (Inl e)
      | Some (ys, None) \<Rightarrow> Some (Inr (last (self # ys))))"

subsection \<open>The normaliser of the monoidal layer\<close>

text \<open>
  Modelled from the spec: \<open>moncat.Diagram.normalize\<close>, the generator that
  \<open>Diagram.normalize\<close> forwards to, is not part of the source. The specification
  names it the generic normaliser of the monoidal layer, and the interchange of two
  boxes with disjoint footprints is the one rewrite of that layer. It is modelled as
  the loop of exchange moves: a pass visits the adjacent positions \<open>i\<close> and \<open>i + 1\<close>
  from the top and, where the lower box lies wholly left of the upper one
  (\<open>off0 >= off1 + len(box1.dom)\<close>; with \<open>left\<close>, where it lies wholly right,
  \<open>off1 >= off0 + len(box0.cod)\<close>), interchanges the two and yields the diagram; the
  passes are repeated until one of them moves nothing. On the last diagram printed
  in the docstring of \<open>Diagram.normalize\<close> the loop yields nothing, as the docstring
  shows.
\<close>

definition exchangeable :: "diagram \<Rightarrow> nat \<Rightarrow> bool \<Rightarrow> bool" where
  "exchangeable d i left =
     (let box0 = boxes d ! i; box1 = boxes d ! (i + 1);
          off0 = offsets d ! i; off1 = offsets d ! (i + 1)
      in (left \<and> off1 \<ge> off0 + int (length (box_cod box0)))
         \<or> (\<not> left \<and> off0 \<ge> off1 + int (length (box_dom box1))))"

text \<open>
  Modelled from the spec: one pass of \<open>moncat.Diagram.normalize\<close> over the positions
  \<open>range(len(diagram) - 1)\<close>; the diagrams yielded, and the diagram the pass ends with
  or the exception an interchange raised.
\<close>

fun moncat_pass :: "diagram \<Rightarrow> bool \<Rightarrow> nat list \<Rightarrow> diagram list \<times> (error + diagram)" where
  "moncat_pass d left [] = ([], Inr d)"
| "moncat_pass d left (i # rest) =
     (if exchangeable d i left then
        (case interchange d (int i) (int i + 1) left of
           Inl e \<Rightarrow> ([], Inl e)
         | Inr d' \<Rightarrow> (case moncat_pass d' left rest of (ys, r) \<Rightarrow> (d' # ys, r)))
      else moncat_pass d left rest)"

text \<open>
  Modelled from the spec: the loop of passes of \<open>moncat.Diagram.normalize\<close>. It ends
  after the first pass that yields nothing; the result \<open>None\<close> is the run in which
  every pass yields a diagram, for ever.
\<close>

partial_function (option) moncat_normalize ::
  "diagram \<Rightarrow> bool \<Rightarrow> (diagram list \<times> error option) option" where
  "moncat_normalize d left =
     (case moncat_pass d left [0..<length (boxes d) - 1] of
        (ys, Inl e) \<Rightarrow> Some (ys, Some e)
      | (ys, Inr d') \<Rightarrow>
          if ys = [] then Some ([], None)
          else Option.bind (moncat_normalize d' left) (\<lambda>(zs, st). Some (ys @ zs, st)))"

text \<open>
  Modelled from the spec: the same loop stopped after \<open>n\<close> passes, with the diagrams
  it has yielded until then.
\<close>

fun moncat_rounds :: "nat \<Rightarrow> diagram \<Rightarrow> bool \<Rightarrow> diagram list" where
  "moncat_rounds 0 d left = []"
| "moncat_rounds (Suc n) d left =
     (case moncat_pass d left [0..<length (boxes d) - 1] of
        (ys, Inl e) \<Rightarrow> ys
      | (ys, Inr d') \<Rightarrow> if ys = [] then [] else ys @ moncat_rounds n d' left)"

text \<open>
  A box without wires, \<open>Box(name, Ty(), Ty())\<close>; two of them side by side,
  \<open>s0 @ s1\<close>; and two of them in sequence, \<open>a >> b\<close>.
\<close>

definition scalar :: "string \<Rightarrow> box" where
  "scalar n = Box n [] [] None False"

definition two_scalars :: diagram where
  "two_scalars = tensor (box_diagram (scalar ''s0'')) (box_diagram (scalar ''s1''))"

definition scalars :: "string \<Rightarrow> string \<Rightarrow> diagram" where
  "scalars a b = \<lparr>dom_ty = [], cod_ty = [], boxes = [scalar a, scalar b], offsets = [0, 0]\<rparr>"

text \<open>
  A diagram for the two phases of \<open>normalize\<close>: on the wires \<open>x @ x\<close> the box \<open>f\<close>
  at offset 1 above the box \<open>g\<close> at offset 0, beside them a cap and a cup on the wire
  \<open>n\<close> that form a snake; and the diagrams of \<open>f\<close> and \<open>g\<close> alone on the same wires,
  with given offsets.
\<close>

definition crossing :: "int list \<Rightarrow> box list \<Rightarrow> diagram" where
  "crossing offs bs =
     \<lparr>dom_ty = [Ob ''x'' 0, Ob ''x'' 0, Ob ''n'' 0], cod_ty = [Ob ''x'' 0, Ob ''x'' 0, Ob ''n'' 0],
      boxes = bs, offsets = offs\<rparr>"

definition box_f :: box where
  "box_f = Box ''f'' [Ob ''x'' 0] [Ob ''x'' 0] None False"

definition box_g :: box where
  "box_g = Box ''g'' [Ob ''x'' 0] [Ob ''x'' 0] None False"

definition crossing_snake :: diagram where
  "crossing_snake =
     crossing [1, 0, 2, 3]
       [box_f, box_g, CapBox [Ob ''n'' 0, Ob ''n'' (- 1)], CupBox [Ob ''n'' (- 1), Ob ''n'' 0]]"

subsection \<open>Invariants of a run\<close>

text \<open>Two diagrams with the same domain and the same codomain.\<close>

definition same_ends :: "diagram \<Rightarrow> diagram \<Rightarrow> bool" where
  "same_ends d d' = (dom_ty d' = dom_ty d \<and> cod_ty d' = cod_ty d)"

text \<open>
  What a finished run of the loop of \<open>normalize\<close> satisfies: every diagram yielded has
  the ends of the input, and a run that ends without exception ends with the last
  diagram yielded (the input when none was), on which \<open>find_move\<close> finds nothing.
\<close>

definition run_ends :: "diagram \<Rightarrow> diagram list \<times> (error + diagram) \<Rightarrow> bool" where
  "run_ends d res = ((\<forall>y\<in>set (fst res). same_ends d y) \<and>
     (\<forall>d'. snd res = Inr d' \<longrightarrow> d' = last (d # fst res) \<and> find_move d' = None))"

subsection \<open>Layers and wires\<close>

text \<open>
  A layer is a box with its offset: the lists \<open>boxes\<close> and \<open>offsets\<close> read together.
  The definitions of this subsection describe what \<open>follow_wire\<close> computes and
  serve the proofs; they are not part of the source.
\<close>

type_synonym layer = "box \<times> int"

definition with_layers :: "diagram \<Rightarrow> layer list \<Rightarrow> diagram" where
  "with_layers d ls = d\<lparr>boxes := map fst ls, offsets := map snd ls\<rparr>"

definition layers :: "diagram \<Rightarrow> layer list" where
  "layers d = zip (boxes d) (offsets d)"

text \<open>\<open>len(box.cod) - len(box.dom)\<close>, and a layer moved by \<open>k\<close> wires.\<close>

definition width_change :: "box \<Rightarrow> int" where
  "width_change b = int (length (box_cod b)) - int (length (box_dom b))"

definition shift :: "int \<Rightarrow> layer \<Rightarrow> layer" where
  "shift k l = (fst l, snd l + k)"

text \<open>
  The wire at offset \<open>j\<close> enters the layer (\<open>off <= j < off + len(box.dom)\<close>);
  otherwise it passes, and moves by the width change of a layer at or left of it.
\<close>

definition covers :: "int \<Rightarrow> layer \<Rightarrow> bool" where
  "covers j l = (snd l \<le> j \<and> j < snd l + int (length (box_dom (fst l))))"

definition pass :: "int \<Rightarrow> layer \<Rightarrow> int" where
  "pass j l = (if snd l \<le> j then j + width_change (fst l) else j)"

text \<open>
  The wire at offset \<open>j\<close> passes every layer of a segment; its offset below the
  segment; and the positions, counted from \<open>s\<close>, of the layers left of the wire
  and of those right of it.
\<close>

fun free_wire :: "int \<Rightarrow> layer list \<Rightarrow> bool" where
  "free_wire j [] = True"
| "free_wire j (l # seg) = (\<not> covers j l \<and> free_wire (pass j l) seg)"

fun wire_end :: "int \<Rightarrow> layer list \<Rightarrow> int" where
  "wire_end j [] = j"
| "wire_end j (l # seg) = wire_end (pass j l) seg"

fun left_idx :: "nat \<Rightarrow> int \<Rightarrow> layer list \<Rightarrow> nat list" where
  "left_idx s j [] = []"
| "left_idx s j (l # seg) =
     (if snd l \<le> j then s # left_idx (Suc s) (pass j l) seg else left_idx (Suc s) (pass j l) seg)"

fun right_idx :: "nat \<Rightarrow> int \<Rightarrow> layer list \<Rightarrow> nat list" where
  "right_idx s j [] = []"
| "right_idx s j (l # seg) =
     (if snd l \<le> j then right_idx (Suc s) (pass j l) seg else s # right_idx (Suc s) (pass j l) seg)"

text \<open>
  The wire at offset \<open>j\<close> above a segment ends in a cup of the segment, at the input
  \<open>find_move\<close> asks for: the second one for the left leg of a cap, the first one for
  the right leg. A list of layers has no yankable pair when no leg of a cap does so
  in the layers below the cap.
\<close>

fun yank :: "bool \<Rightarrow> int \<Rightarrow> layer list \<Rightarrow> bool" where
  "yank ls j [] = False"
| "yank ls j (l # seg) =
     (if covers j l then is_Cup (fst l) \<and> (if ls then snd l + 1 = j else snd l = j)
      else yank ls (pass j l) seg)"

fun snake_free :: "layer list \<Rightarrow> bool" where
  "snake_free [] = True"
| "snake_free (l # seg) =
     ((if is_Cap (fst l) then \<not> yank True (snd l) seg \<and> \<not> yank False (snd l + 1) seg else True)
      \<and> snake_free seg)"

text \<open>The layers strictly between the positions \<open>i\<close> and \<open>u\<close>.\<close>

definition between :: "diagram \<Rightarrow> nat \<Rightarrow> nat \<Rightarrow> layer list" where
  "between d i u = take (u - Suc i) (drop (Suc i) (layers d))"

text \<open>
  The diagrams the constructors build: one offset per box, and every cup and cap on
  two wires (\<open>Cup.__init__\<close> and \<open>Cap.__init__\<close> accept types of length one only).
\<close>

fun valid_box :: "box \<Rightarrow> bool" where
  "valid_box (CupBox t) = (length t = 2)"
| "valid_box (CapBox t) = (length t = 2)"
| "valid_box (Box n dm cd dt dg) = True"

definition well_formed :: "diagram \<Rightarrow> bool" where
  "well_formed d = (length (offsets d) = length (boxes d) \<and> list_all valid_box (boxes d))"

section \<open>Rigid functors\<close>

text \<open>
  A functor holds the object mapping \<open>ob\<close>, a dictionary from types to types, and
  the arrow mapping \<open>ar\<close>, a dictionary from boxes to diagrams; the classes
  \<open>ob_cls\<close> and \<open>ar_cls\<close> are the defaults \<open>Ty\<close> and \<open>Diagram\<close>. A key that is
  absent from a dictionary raises \<open>KeyError\<close>.
\<close>

record rigid_functor =
  ob :: "ty \<rightharpoonup> ty"
  ar :: "box \<rightharpoonup> diagram"

text \<open>
  \<open>RigidFunctor.__call__\<close> on an object: the image of \<open>Ty(diagram.name)\<close>, then
  \<open>.l\<close> taken \<open>-z\<close> times when \<open>z < 0\<close>, \<open>.r\<close> taken \<open>z\<close> times when \<open>z > 0\<close>.
\<close>

definition call_Ob :: "rigid_functor \<Rightarrow> ob \<Rightarrow> error + ty" where
  "call_Ob F x =
     (case ob F [Ob (name x) 0] of
        None \<Rightarrow> Inl KeyError
      | Some result \<Rightarrow>
          Inr (if z x < 0 then (Ty_l ^^ nat (- z x)) result
               else if z x > 0 then (Ty_r ^^ nat (z x)) result
               else result))"

text \<open>
  On a type: \<open>sum([self(b) for b in diagram.objects], self.ob_cls())\<close>. The list of
  images is built first, from left to right, then added up from the empty type.
\<close>

fun call_objects :: "rigid_functor \<Rightarrow> ob list \<Rightarrow> error + ty list" where
  "call_objects F [] = Inr []"
| "call_objects F (b # rest) =
     try_then (call_Ob F b) (\<lambda>image. try_then (call_objects F rest) (\<lambda>images. Inr (image # images)))"

definition call_Ty :: "rigid_functor \<Rightarrow> ty \<Rightarrow> error + ty" where
  "call_Ty F t = try_then (call_objects F t) (\<lambda>images. Inr (foldl tensor_ty [] images))"

text \<open>
  On a cup: \<open>self.ar_cls.cups(self(diagram.dom[0]), self(diagram.dom[1]))\<close>, and on a
  cap the same with \<open>caps\<close> and \<open>cod\<close>.
\<close>

definition call_Cup :: "rigid_functor \<Rightarrow> ty \<Rightarrow> error + diagram" where
  "call_Cup F d =
     try_then (getitem d 0) (\<lambda>o0. try_then (call_Ob F o0) (\<lambda>x.
     try_then (getitem d 1) (\<lambda>o1. try_then (call_Ob F o1) (\<lambda>y. cups x y))))"

definition call_Cap :: "rigid_functor \<Rightarrow> ty \<Rightarrow> error + diagram" where
  "call_Cap F c =
     try_then (getitem c 0) (\<lambda>o0. try_then (call_Ob F o0) (\<lambda>x.
     try_then (getitem c 1) (\<lambda>o1. try_then (call_Ob F o1) (\<lambda>y. caps x y))))"

text \<open>
  \<open>RigidFunctor.__call__\<close>, by the chain of \<open>isinstance\<close> tests of the source:
  \<open>Ob\<close>, \<open>Ty\<close>, \<open>Cup\<close>, \<open>Cap\<close>, \<open>Diagram\<close>, and \<open>TypeError\<close> for any other value.
  For a diagram the call goes to \<open>MonoidalFunctor.__call__\<close>, which is not part of
  the source: it is the parameter \<open>super_call\<close>.
\<close>

fun RigidFunctor_call ::
  "(rigid_functor \<Rightarrow> pyobj \<Rightarrow> error + pyobj) \<Rightarrow> rigid_functor \<Rightarrow> pyobj \<Rightarrow> error + pyobj" where
  "RigidFunctor_call super_call F (PyOb x) = try_then (call_Ob F x) (\<lambda>t. Inr (PyTy t))"
| "RigidFunctor_call super_call F (PyTy t) = try_then (call_Ty F t) (\<lambda>t'. Inr (PyTy t'))"
| "RigidFunctor_call super_call F (PyBox (CupBox d)) =
     try_then (call_Cup F d) (\<lambda>r. Inr (PyDiagram r))"
| "RigidFunctor_call super_call F (PyBox (CapBox c)) =
     try_then (call_Cap F c) (\<lambda>r. Inr (PyDiagram r))"
| "RigidFunctor_call super_call F (PyBox b) = super_call F (PyBox b)"
| "RigidFunctor_call super_call F (PyDiagram d) = super_call F (PyDiagram d)"
| "RigidFunctor_call super_call F v = Inl TypeError"

section \<open>Properties of objects and types\<close>

lemma Ob_l_r [simp]: "Ob_r (Ob_l x) = x" "Ob_l (Ob_r x) = x"
  by (simp_all add: Ob_l_def Ob_r_def)

lemma Ty_l_r [simp]: "Ty_r (Ty_l t) = t" "Ty_l (Ty_r t) = t"
  by (simp_all add: Ty_l_def Ty_r_def rev_map comp_def)

lemma length_Ty [simp]: "length (Ty_l t) = length t" "length (Ty_r t) = length t"
  by (simp_all add: Ty_l_def Ty_r_def)

text \<open>
  C8. For all types \<open>x\<close> and \<open>y\<close>, the left adjoint of \<open>x @ y\<close> is \<open>y.l @ x.l\<close> and
  the right adjoint of \<open>x @ y\<close> is \<open>y.r @ x.r\<close>: the adjoint of a tensor is the
  reversed tensor of the adjoints.
\<close>

theorem adjoint_of_tensor:
  "Ty_l (tensor_ty x y) = tensor_ty (Ty_l y) (Ty_l x) \<and>
   Ty_r (tensor_ty x y) = tensor_ty (Ty_r y) (Ty_r x)"
  by (simp add: Ty_l_def Ty_r_def tensor_ty_def)

text \<open>
  C9. For an object \<open>self\<close> and a value \<open>v\<close> that is not an instance of \<open>Ob\<close>, the
  test \<open>self == v\<close> is \<open>False\<close> (the model is total: the test does not raise); for
  two objects it is \<open>True\<close> exactly when the names and the winding numbers coincide.
\<close>

theorem Ob_eq_spec:
  "(\<not> isinstance_Ob v \<longrightarrow> Ob_eq self v = False) \<and>
   Ob_eq self (PyOb other) = (name self = name other \<and> z self = z other)"
  by (cases v) simp_all

theorem Ob_eq_spec_witness:
  "\<not> isinstance_Ob (PyCatOb ''a'') \<and> Ob_eq (Ob ''a'' 0) (PyCatOb ''a'') = False \<and>
   Ob_eq (Ob ''a'' 0) (PyOb (Ob ''a'' 1)) = False \<and>
   Ob_eq (Ob ''a'' 1) (PyOb (Ob ''a'' 1)) = True"
  using Ob_eq_spec [of "PyCatOb ''a''" "Ob ''a'' 0" "Ob ''a'' 1"]
    Ob_eq_spec [of "PyCatOb ''a''" "Ob ''a'' 1" "Ob ''a'' 1"]
  by simp

text \<open>
  C5. For singleton types in the pivotal direction, \<open>x = y.r\<close> for a cup and
  \<open>x = y.l\<close> for a cap, the constructor fails with \<open>NotImplementedError\<close> (the kind
  \<open>Unsupported\<close>) and returns no box.
\<close>

theorem pivotal_rejected:
  "(length y = 1 \<and> x = Ty_r y \<longrightarrow> Cup x y = Inl NotImplementedError) \<and>
   (length y = 1 \<and> x = Ty_l y \<longrightarrow> Cap x y = Inl NotImplementedError)"
  by (auto simp: Cup_def Cap_def)

theorem pivotal_rejected_witness:
  "length [Ob ''n'' 0] = 1 \<and> [Ob ''n'' 1] = Ty_r [Ob ''n'' 0] \<and>
   Cup [Ob ''n'' 1] [Ob ''n'' 0] = Inl NotImplementedError \<and>
   [Ob ''n'' (- 1)] = Ty_l [Ob ''n'' 0] \<and>
   Cap [Ob ''n'' (- 1)] [Ob ''n'' 0] = Inl NotImplementedError"
  using pivotal_rejected [of "[Ob ''n'' 0]" "[Ob ''n'' 1]"]
    pivotal_rejected [of "[Ob ''n'' 0]" "[Ob ''n'' (- 1)]"]
  by (simp add: Ty_r_def Ty_l_def Ob_r_def Ob_l_def)

section \<open>Nested cups and caps, and functors\<close>

lemma succeeds_simps [simp]: "succeeds (Inr v)" "\<not> succeeds (Inl e)"
  by (simp_all add: succeeds_def)

lemma try_then_simps [simp]:
  "try_then (Inl e) f = Inl e" "try_then (Inr v) f = f v"
  by (simp_all add: try_then_def)

lemma succeeds_try_then:
  "succeeds (try_then r f) = (\<exists>v. r = Inr v \<and> succeeds (f v))"
  by (cases r) simp_all

lemma Ob_r_neq [simp]: "Ob_r x \<noteq> x" "x \<noteq> Ob_r x" "Ob_l x \<noteq> x" "x \<noteq> Ob_l x"
  "Ob_r (Ob_r x) \<noteq> x" "x \<noteq> Ob_r (Ob_r x)" "Ob_l (Ob_l x) \<noteq> x" "x \<noteq> Ob_l (Ob_l x)"
  "Ob_r x \<noteq> Ob_l x" "Ob_l x \<noteq> Ob_r x"
  by (cases x; simp add: Ob_r_def Ob_l_def)+

lemma Ob_r_eq_iff: "(Ob_r x = y) = (x = Ob_l y)"
  by (cases x; cases y) (auto simp add: Ob_r_def Ob_l_def)

lemma Ty_r_single [simp]: "Ty_r [x] = [Ob_r x]" "Ty_l [x] = [Ob_l x]" "Ty_r [] = []" "Ty_l [] = []"
  by (simp_all add: Ty_r_def Ty_l_def)

lemma Cup_single: "succeeds (Cup [a] ys) = (ys = [Ob_r a])"
  by (cases ys; cases "tl ys") (auto simp: Cup_def Ob_r_eq_iff)

lemma Cup_single_value: "Cup [a] [Ob_r a] = Inr (CupBox [a, Ob_r a])"
  by (simp add: Cup_def tensor_ty_def)

lemma Cap_single: "succeeds (Cap [a] ys) = (ys = [Ob_l a])"
  by (cases ys; cases "tl ys") (auto simp: Cap_def Ob_r_eq_iff)

lemma Cap_single_value: "Cap [a] [Ob_l a] = Inr (CapBox [a, Ob_l a])"
  by (simp add: Cap_def tensor_ty_def)

lemma slice_single: "i < length t \<Longrightarrow> slice t i (i + 1) = [t ! i]"
  by (simp add: slice_def take_Suc_conv_app_nth hd_drop_conv_nth take_Suc)

lemma slice_beyond: "length t \<le> i \<Longrightarrow> slice t i (i + 1) = []"
  by (simp add: slice_def)

lemma Cup_slices:
  assumes "j < length x"
  shows "succeeds (Cup (slice x j (j + 1)) (slice y i (i + 1))) = (i < length y \<and> y ! i = Ob_r (x ! j))"
  using assms by (cases "i < length y") (auto simp: slice_single slice_beyond Cup_single simp del: One_nat_def)

lemma Cap_slices:
  assumes "j < length x"
  shows "succeeds (Cap (slice x j (j + 1)) (slice y i (i + 1))) = (i < length y \<and> y ! i = Ob_l (x ! j))"
  using assms by (cases "i < length y") (auto simp: slice_single slice_beyond Cap_single simp del: One_nat_def)

lemma Cup_slices_value:
  assumes "j < length x" "i < length y" "y ! i = Ob_r (x ! j)"
  shows "Cup (slice x j (j + 1)) (slice y i (i + 1)) = Inr (CupBox [x ! j, y ! i])"
  using assms by (simp add: slice_single Cup_single_value del: One_nat_def)

lemma Cap_slices_value:
  assumes "j < length x" "i < length y" "y ! i = Ob_l (x ! j)"
  shows "Cap (slice x j (j + 1)) (slice y i (i + 1)) = Inr (CapBox [x ! j, y ! i])"
  using assms by (simp add: slice_single Cap_single_value del: One_nat_def)

lemma cups_layer_cases:
  assumes "i < length x"
  shows "(if i < length y \<and> y ! i = Ob_r (x ! (length x - i - 1))
          then cups_layer x y i = Inr (layer_of x y i (CupBox [x ! (length x - i - 1), y ! i]))
          else \<not> succeeds (cups_layer x y i))"
proof -
  have j: "length x - i - 1 < length x" using assms by simp
  show ?thesis
    unfolding cups_layer_def Let_def layer_of_def
    using Cup_slices [OF j, of y i] Cup_slices_value [OF j, of i y]
    by (auto simp add: succeeds_try_then simp del: One_nat_def)
qed

lemma caps_layer_cases:
  assumes "i < length x"
  shows "(if i < length y \<and> y ! i = Ob_l (x ! (length x - i - 1))
          then caps_layer x y i = Inr (layer_of x y i (CapBox [x ! (length x - i - 1), y ! i]))
          else \<not> succeeds (caps_layer x y i))"
proof -
  have j: "length x - i - 1 < length x" using assms by simp
  show ?thesis
    unfolding caps_layer_def Let_def layer_of_def
    using Cap_slices [OF j, of y i] Cap_slices_value [OF j, of i y]
    by (auto simp add: succeeds_try_then simp del: One_nat_def)
qed

lemma layer_of_dom_cod:
  assumes "i < length x" "i < length y"
  shows "dom_ty (layer_of x y i (CupBox [x ! (length x - i - 1), y ! i])) = take (length x - i) x @ drop i y"
    and "cod_ty (layer_of x y i (CupBox [x ! (length x - i - 1), y ! i])) = take (length x - i - 1) x @ drop (i + 1) y"
    and "cod_ty (layer_of x y i (CapBox [x ! (length x - i - 1), y ! i])) = take (length x - i) x @ drop i y"
    and "dom_ty (layer_of x y i (CapBox [x ! (length x - i - 1), y ! i])) = take (length x - i - 1) x @ drop (i + 1) y"
proof -
  have t: "take (length x - i) x = take (length x - i - 1) x @ [x ! (length x - i - 1)]"
  proof -
    have "Suc (length x - i - 1) = length x - i" using assms by simp
    then show ?thesis
      using take_Suc_conv_app_nth [of "length x - i - 1" x] assms by simp
  qed
  have d: "drop i y = y ! i # drop (i + 1) y"
    using assms by (simp add: Cons_nth_drop_Suc)
  show "dom_ty (layer_of x y i (CupBox [x ! (length x - i - 1), y ! i])) = take (length x - i) x @ drop i y"
    by (simp add: layer_of_def tensor_def tensor_ty_def Id_diagram_def box_diagram_def t d del: One_nat_def)
  show "cod_ty (layer_of x y i (CupBox [x ! (length x - i - 1), y ! i])) = take (length x - i - 1) x @ drop (i + 1) y"
    by (simp add: layer_of_def tensor_def tensor_ty_def Id_diagram_def box_diagram_def del: One_nat_def)
  show "cod_ty (layer_of x y i (CapBox [x ! (length x - i - 1), y ! i])) = take (length x - i) x @ drop i y"
    by (simp add: layer_of_def tensor_def tensor_ty_def Id_diagram_def box_diagram_def t d del: One_nat_def)
  show "dom_ty (layer_of x y i (CapBox [x ! (length x - i - 1), y ! i])) = take (length x - i - 1) x @ drop (i + 1) y"
    by (simp add: layer_of_def tensor_def tensor_ty_def Id_diagram_def box_diagram_def del: One_nat_def)
qed


lemma then_diagram_succeeds [simp]:
  "succeeds (then_diagram f g) = (cod_ty f = dom_ty g)"
  by (simp add: then_diagram_def)

lemma then_diagram_dom_cod:
  "then_diagram f g = Inr h \<Longrightarrow> dom_ty h = dom_ty f \<and> cod_ty h = cod_ty g"
  by (auto simp: then_diagram_def split: if_splits)

lemma cups_loop_succeeds:
  assumes "k \<le> length x" "cod_ty acc = take (length x - k) x @ drop k y"
  shows "succeeds (cups_loop x y [k..<length x] acc) =
         (\<forall>i. k \<le> i \<and> i < length x \<longrightarrow> i < length y \<and> y ! i = Ob_r (x ! (length x - i - 1)))"
  using assms
proof (induction "length x - k" arbitrary: k acc)
  case 0
  then show ?case by auto
next
  case (Suc m)
  then have k: "k < length x" by simp
  have upt: "[k..<length x] = k # [Suc k..<length x]"
    using k by (simp add: upt_conv_Cons)
  show ?case
  proof (cases "k < length y \<and> y ! k = Ob_r (x ! (length x - k - 1))")
    case True
    let ?layer = "layer_of x y k (CupBox [x ! (length x - k - 1), y ! k])"
    have layer: "cups_layer x y k = Inr ?layer"
      using cups_layer_cases [OF k, of y] True by simp
    have dom: "dom_ty ?layer = cod_ty acc"
      using layer_of_dom_cod(1) [OF k, of y] True Suc.prems by simp
    obtain acc' where acc': "then_diagram acc ?layer = Inr acc'"
      using dom by (auto simp: then_diagram_def)
    have cod': "cod_ty acc' = take (length x - Suc k) x @ drop (Suc k) y"
      using then_diagram_dom_cod [OF acc'] layer_of_dom_cod(2) [OF k, of y] True by simp
    have IH: "succeeds (cups_loop x y [Suc k..<length x] acc') =
         (\<forall>i. Suc k \<le> i \<and> i < length x \<longrightarrow> i < length y \<and> y ! i = Ob_r (x ! (length x - i - 1)))"
      using Suc.hyps(1) [of "Suc k" acc'] Suc.hyps(2) k cod' by simp
    have "succeeds (cups_loop x y [k..<length x] acc) = succeeds (cups_loop x y [Suc k..<length x] acc')"
      by (simp only: upt cups_loop.simps caps_loop.simps layer try_then_simps acc')
    also have "\<dots> = (\<forall>i. k \<le> i \<and> i < length x \<longrightarrow> i < length y \<and> y ! i = Ob_r (x ! (length x - i - 1)))"
      unfolding IH using True by (metis Suc_leI le_neq_implies_less Suc_leD)
    finally show ?thesis .
  next
    case False
    then have "\<not> succeeds (cups_layer x y k)"
      using cups_layer_cases [OF k, of y] by simp
    then have "\<not> succeeds (cups_loop x y [k..<length x] acc)"
      by (cases "cups_layer x y k"; cases "caps_layer x y k") (simp_all add: upt)
    moreover have "\<not> (\<forall>i. k \<le> i \<and> i < length x \<longrightarrow> i < length y \<and> y ! i = Ob_r (x ! (length x - i - 1)))"
      using False k by blast
    ultimately show ?thesis by simp
  qed
qed

lemma caps_loop_succeeds:
  assumes "k \<le> length x" "dom_ty acc = take (length x - k) x @ drop k y"
  shows "succeeds (caps_loop x y [k..<length x] acc) =
         (\<forall>i. k \<le> i \<and> i < length x \<longrightarrow> i < length y \<and> y ! i = Ob_l (x ! (length x - i - 1)))"
  using assms
proof (induction "length x - k" arbitrary: k acc)
  case 0
  then show ?case by auto
next
  case (Suc m)
  then have k: "k < length x" by simp
  have upt: "[k..<length x] = k # [Suc k..<length x]"
    using k by (simp add: upt_conv_Cons)
  show ?case
  proof (cases "k < length y \<and> y ! k = Ob_l (x ! (length x - k - 1))")
    case True
    let ?layer = "layer_of x y k (CapBox [x ! (length x - k - 1), y ! k])"
    have layer: "caps_layer x y k = Inr ?layer"
      using caps_layer_cases [OF k, of y] True by simp
    have cod: "cod_ty ?layer = dom_ty acc"
      using layer_of_dom_cod(3) [OF k, of y] True Suc.prems by simp
    obtain acc' where acc': "then_diagram ?layer acc = Inr acc'"
      using cod by (auto simp: then_diagram_def)
    have dom': "dom_ty acc' = take (length x - Suc k) x @ drop (Suc k) y"
      using then_diagram_dom_cod [OF acc'] layer_of_dom_cod(4) [OF k, of y] True by simp
    have IH: "succeeds (caps_loop x y [Suc k..<length x] acc') =
         (\<forall>i. Suc k \<le> i \<and> i < length x \<longrightarrow> i < length y \<and> y ! i = Ob_l (x ! (length x - i - 1)))"
      using Suc.hyps(1) [of "Suc k" acc'] Suc.hyps(2) k dom' by simp
    have "succeeds (caps_loop x y [k..<length x] acc) = succeeds (caps_loop x y [Suc k..<length x] acc')"
      by (simp only: upt cups_loop.simps caps_loop.simps layer try_then_simps acc')
    also have "\<dots> = (\<forall>i. k \<le> i \<and> i < length x \<longrightarrow> i < length y \<and> y ! i = Ob_l (x ! (length x - i - 1)))"
      unfolding IH using True by (metis Suc_leI le_neq_implies_less Suc_leD)
    finally show ?thesis .
  next
    case False
    then have "\<not> succeeds (caps_layer x y k)"
      using caps_layer_cases [OF k, of y] by simp
    then have "\<not> succeeds (caps_loop x y [k..<length x] acc)"
      by (cases "cups_layer x y k"; cases "caps_layer x y k") (simp_all add: upt)
    moreover have "\<not> (\<forall>i. k \<le> i \<and> i < length x \<longrightarrow> i < length y \<and> y ! i = Ob_l (x ! (length x - i - 1)))"
      using False k by blast
    ultimately show ?thesis by simp
  qed
qed

lemma prefix_map_rev:
  "prefix (map f (rev x)) y =
     (\<forall>i. i < length x \<longrightarrow> i < length y \<and> y ! i = f (x ! (length x - i - 1)))"
proof
  assume p: "prefix (map f (rev x)) y"
  then obtain zs where y: "y = map f (rev x) @ zs" by (auto simp: prefix_def)
  show "\<forall>i. i < length x \<longrightarrow> i < length y \<and> y ! i = f (x ! (length x - i - 1))"
    by (auto simp: y nth_append rev_nth)
next
  assume a: "\<forall>i. i < length x \<longrightarrow> i < length y \<and> y ! i = f (x ! (length x - i - 1))"
  have len: "length x \<le> length y"
  proof (cases x)
    case Nil then show ?thesis by simp
  next
    case (Cons h t)
    then have "length x - 1 < length x" by simp
    with a have "length x - 1 < length y" by blast
    then show ?thesis by simp
  qed
  have "take (length x) y = map f (rev x)"
    by (rule nth_equalityI) (use a len in \<open>auto simp: rev_nth\<close>)
  then show "prefix (map f (rev x)) y"
    by (metis take_is_prefix)
qed

text \<open>
  C10 (as amended). \<open>Diagram.cups(x, y)\<close> returns a diagram exactly when \<open>x.r\<close> is a
  prefix of \<open>y\<close>, and \<open>Diagram.caps(x, y)\<close> exactly when \<open>x.l\<close> is a prefix of
  \<open>y\<close>: the constructors \<open>Cup\<close> and \<open>Cap\<close> check the \<open>len(x)\<close> pairs of wires
  the loop visits, and nothing checks the wires of \<open>y\<close> beyond them.
\<close>

theorem cups_caps_succeed_iff_prefix:
  "succeeds (cups x y) = prefix (Ty_r x) y \<and> succeeds (caps x y) = prefix (Ty_l x) y"
  using cups_loop_succeeds [of 0 x "Id_diagram (tensor_ty x y)" y]
        caps_loop_succeeds [of 0 x "Id_diagram (tensor_ty x y)" y]
  by (simp add: cups_def caps_def Id_diagram_def tensor_ty_def prefix_map_rev Ty_r_def Ty_l_def)

text \<open>
  With equality in place of prefix the statement fails for the empty type \<open>x\<close>:
  the loop has no round and \<open>Id(y)\<close> is returned for any \<open>y\<close>.
\<close>

theorem cups_iff_counterexample:
  "cups [] [Ob ''a'' 0] = Inr (Id_diagram [Ob ''a'' 0]) \<and> [Ob ''a'' 0] \<noteq> Ty_r [] \<and>
   caps [] [Ob ''a'' 0] = Inr (Id_diagram [Ob ''a'' 0]) \<and> [Ob ''a'' 0] \<noteq> Ty_l []"
  by (simp add: cups_def caps_def tensor_ty_def)

lemma call_Ob_absent: "ob F [Ob (name x) 0] = None \<Longrightarrow> call_Ob F x = Inl KeyError"
  by (simp add: call_Ob_def)

lemma call_Ob_error: "call_Ob F x = Inl e \<Longrightarrow> e = KeyError"
  by (auto simp: call_Ob_def split: option.splits)

lemma call_objects_absent:
  "x \<in> set t \<Longrightarrow> ob F [Ob (name x) 0] = None \<Longrightarrow> call_objects F t = Inl KeyError"
proof (induction t)
  case Nil
  then show ?case by simp
next
  case (Cons b rest)
  show ?case
  proof (cases "call_Ob F b")
    case (Inl e)
    then show ?thesis using call_Ob_error [OF Inl] by simp
  next
    case (Inr image)
    then have "x \<noteq> b" using Cons.prems call_Ob_absent [of F x] by auto
    then have "call_objects F rest = Inl KeyError" using Cons by simp
    then show ?thesis using Inr by simp
  qed
qed

lemma call_Ty_single: "call_Ty F [x] = call_Ob F x"
  by (cases "call_Ob F x") (simp_all add: call_Ty_def tensor_ty_def)

lemma Cup_Inr: "Cup a b = Inr c \<Longrightarrow> \<exists>x. a = [x] \<and> b = [Ob_r x] \<and> c = CupBox [x, Ob_r x]"
  by (cases a; cases "tl a"; cases b; cases "tl b")
     (auto simp: Cup_def tensor_ty_def split: if_splits)

lemma Cap_Inr: "Cap a b = Inr c \<Longrightarrow> \<exists>x. a = [x] \<and> b = [Ob_l x] \<and> c = CapBox [x, Ob_l x]"
  by (cases a; cases "tl a"; cases b; cases "tl b")
     (auto simp: Cap_def tensor_ty_def Ob_r_eq_iff split: if_splits)

text \<open>
  C4 (as amended). When the base name of an object \<open>x\<close> is absent from the object
  mapping, applying the functor to \<open>x\<close>, to a type that contains \<open>x\<close>, or to a cup
  or a cap on \<open>x\<close> fails with \<open>KeyError\<close>, the error of the dictionary lookup
  \<open>self.ob[Ty(diagram.name)]\<close>.
\<close>

theorem absent_object_KeyError:
  assumes "ob F [Ob (name x) 0] = None"
  shows "RigidFunctor_call super_call F (PyOb x) = Inl KeyError \<and>
         (x \<in> set t \<longrightarrow> RigidFunctor_call super_call F (PyTy t) = Inl KeyError) \<and>
         (Cup [x] y = Inr c \<longrightarrow> RigidFunctor_call super_call F (PyBox c) = Inl KeyError) \<and>
         (Cap [x] y = Inr c \<longrightarrow> RigidFunctor_call super_call F (PyBox c) = Inl KeyError)"
proof (intro conjI impI)
  show "RigidFunctor_call super_call F (PyOb x) = Inl KeyError"
    using assms by (simp add: call_Ob_absent)
  show "x \<in> set t \<Longrightarrow> RigidFunctor_call super_call F (PyTy t) = Inl KeyError"
    using assms by (simp add: call_Ty_def call_objects_absent)
  show "Cup [x] y = Inr c \<Longrightarrow> RigidFunctor_call super_call F (PyBox c) = Inl KeyError"
    using assms Cup_Inr [of "[x]" y c]
    by (auto simp: call_Cup_def getitem_def call_Ob_absent)
  show "Cap [x] y = Inr c \<Longrightarrow> RigidFunctor_call super_call F (PyBox c) = Inl KeyError"
    using assms Cap_Inr [of "[x]" y c]
    by (auto simp: call_Cap_def getitem_def call_Ob_absent)
qed

theorem absent_object_KeyError_witness:
  "ob \<lparr>ob = Map.empty, ar = Map.empty\<rparr> [Ob (name (Ob ''x'' 0)) 0] = None \<and>
   RigidFunctor_call (\<lambda>F v. Inl TypeError) \<lparr>ob = Map.empty, ar = Map.empty\<rparr>
     (PyOb (Ob ''x'' 0)) = Inl KeyError \<and>
   Ob ''x'' 0 \<in> set [Ob ''x'' 0] \<and>
   RigidFunctor_call (\<lambda>F v. Inl TypeError) \<lparr>ob = Map.empty, ar = Map.empty\<rparr>
     (PyTy [Ob ''x'' 0]) = Inl KeyError \<and>
   Cup [Ob ''x'' 0] [Ob ''x'' 1] = Inr (CupBox [Ob ''x'' 0, Ob ''x'' 1]) \<and>
   RigidFunctor_call (\<lambda>F v. Inl TypeError) \<lparr>ob = Map.empty, ar = Map.empty\<rparr>
     (PyBox (CupBox [Ob ''x'' 0, Ob ''x'' 1])) = Inl KeyError"
proof -
  have c: "Cup [Ob ''x'' 0] [Ob ''x'' 1] = Inr (CupBox [Ob ''x'' 0, Ob ''x'' 1])"
    by (simp add: Cup_def tensor_ty_def Ob_r_def)
  show ?thesis
    using absent_object_KeyError [of "\<lparr>ob = Map.empty, ar = Map.empty\<rparr>" "Ob ''x'' 0"
        "\<lambda>F v. Inl TypeError" "[Ob ''x'' 0]" "[Ob ''x'' 1]" "CupBox [Ob ''x'' 0, Ob ''x'' 1]"] c
    by simp
qed

text \<open>
  The kind of the error is not \<open>TypeMismatch\<close> (\<open>AxiomError\<close>): on the functor
  with the empty object mapping the error is \<open>KeyError\<close>.
\<close>

theorem absent_object_counterexample:
  "RigidFunctor_call (\<lambda>F v. Inl TypeError) \<lparr>ob = Map.empty, ar = Map.empty\<rparr>
     (PyTy [Ob ''x'' 0]) = Inl KeyError \<and>
   RigidFunctor_call (\<lambda>F v. Inl TypeError) \<lparr>ob = Map.empty, ar = Map.empty\<rparr>
     (PyTy [Ob ''x'' 0]) \<noteq> Inl AxiomError"
  by (simp add: call_Ty_def call_Ob_def)

text \<open>
  C6. For a cup \<open>Cup(a, b)\<close> the functor returns \<open>cups(F(a), F(b))\<close>, and for a cap
  \<open>Cap(a, b)\<close> it returns \<open>caps(F(a), F(b))\<close>, where \<open>F(a)\<close> and \<open>F(b)\<close> are the
  images of the types; the result is the same for any arrow mapping and any inherited
  call.
\<close>

theorem functor_preserves_cups_caps:
  "(Cup a b = Inr c \<longrightarrow>
      RigidFunctor_call super_call F (PyBox c) =
        try_then (call_Ty F a) (\<lambda>Fa. try_then (call_Ty F b) (\<lambda>Fb.
          try_then (cups Fa Fb) (\<lambda>r. Inr (PyDiagram r)))) \<and>
      RigidFunctor_call super_call F (PyBox c) =
        RigidFunctor_call super_call' (F\<lparr>ar := ar'\<rparr>) (PyBox c)) \<and>
   (Cap a b = Inr c \<longrightarrow>
      RigidFunctor_call super_call F (PyBox c) =
        try_then (call_Ty F a) (\<lambda>Fa. try_then (call_Ty F b) (\<lambda>Fb.
          try_then (caps Fa Fb) (\<lambda>r. Inr (PyDiagram r)))) \<and>
      RigidFunctor_call super_call F (PyBox c) =
        RigidFunctor_call super_call' (F\<lparr>ar := ar'\<rparr>) (PyBox c))"
proof (intro conjI impI)
  assume "Cup a b = Inr c"
  then obtain x where x: "a = [x]" "b = [Ob_r x]" "c = CupBox [x, Ob_r x]"
    using Cup_Inr by blast
  show "RigidFunctor_call super_call F (PyBox c) =
        try_then (call_Ty F a) (\<lambda>Fa. try_then (call_Ty F b) (\<lambda>Fb.
          try_then (cups Fa Fb) (\<lambda>r. Inr (PyDiagram r))))"
    by (cases "call_Ob F x"; cases "call_Ob F (Ob_r x)")
       (simp_all add: x call_Ty_single call_Cup_def getitem_def)
  show "RigidFunctor_call super_call F (PyBox c) =
        RigidFunctor_call super_call' (F\<lparr>ar := ar'\<rparr>) (PyBox c)"
    by (simp add: x call_Cup_def call_Ob_def)
next
  assume "Cap a b = Inr c"
  then obtain x where x: "a = [x]" "b = [Ob_l x]" "c = CapBox [x, Ob_l x]"
    using Cap_Inr by blast
  show "RigidFunctor_call super_call F (PyBox c) =
        try_then (call_Ty F a) (\<lambda>Fa. try_then (call_Ty F b) (\<lambda>Fb.
          try_then (caps Fa Fb) (\<lambda>r. Inr (PyDiagram r))))"
    by (cases "call_Ob F x"; cases "call_Ob F (Ob_l x)")
       (simp_all add: x call_Ty_single call_Cap_def getitem_def)
  show "RigidFunctor_call super_call F (PyBox c) =
        RigidFunctor_call super_call' (F\<lparr>ar := ar'\<rparr>) (PyBox c)"
    by (simp add: x call_Cap_def call_Ob_def)
qed

theorem functor_preserves_cups_caps_witness:
  "Cup [Ob ''n'' 0] [Ob ''n'' 1] = Inr (CupBox [Ob ''n'' 0, Ob ''n'' 1]) \<and>
   RigidFunctor_call (\<lambda>F v. Inl TypeError)
       \<lparr>ob = [[Ob ''n'' 0] \<mapsto> [Ob ''s'' 0]], ar = Map.empty\<rparr>
       (PyBox (CupBox [Ob ''n'' 0, Ob ''n'' 1])) =
     Inr (PyDiagram \<lparr>dom_ty = [Ob ''s'' 0, Ob ''s'' 1], cod_ty = [],
                      boxes = [CupBox [Ob ''s'' 0, Ob ''s'' 1]], offsets = [0]\<rparr>) \<and>
   Cap [Ob ''n'' 0] [Ob ''n'' (- 1)] = Inr (CapBox [Ob ''n'' 0, Ob ''n'' (- 1)]) \<and>
   RigidFunctor_call (\<lambda>F v. Inl TypeError)
       \<lparr>ob = [[Ob ''n'' 0] \<mapsto> [Ob ''s'' 0]], ar = Map.empty\<rparr>
       (PyBox (CapBox [Ob ''n'' 0, Ob ''n'' (- 1)])) =
     Inr (PyDiagram \<lparr>dom_ty = [], cod_ty = [Ob ''s'' 0, Ob ''s'' (- 1)],
                      boxes = [CapBox [Ob ''s'' 0, Ob ''s'' (- 1)]], offsets = [0]\<rparr>)"
proof -
  let ?F = "\<lparr>ob = [[Ob ''n'' 0] \<mapsto> [Ob ''s'' 0]], ar = Map.empty\<rparr>"
  have cu: "Cup [Ob ''n'' 0] [Ob ''n'' 1] = Inr (CupBox [Ob ''n'' 0, Ob ''n'' 1])"
    by (simp add: Cup_def tensor_ty_def Ob_r_def)
  have ca: "Cap [Ob ''n'' 0] [Ob ''n'' (- 1)] = Inr (CapBox [Ob ''n'' 0, Ob ''n'' (- 1)])"
    by (simp add: Cap_def tensor_ty_def Ob_r_def)
  have "RigidFunctor_call (\<lambda>F v. Inl TypeError) ?F (PyBox (CupBox [Ob ''n'' 0, Ob ''n'' 1])) =
        try_then (call_Ty ?F [Ob ''n'' 0]) (\<lambda>Fa. try_then (call_Ty ?F [Ob ''n'' 1]) (\<lambda>Fb.
          try_then (cups Fa Fb) (\<lambda>r. Inr (PyDiagram r))))"
    using functor_preserves_cups_caps [of "[Ob ''n'' 0]" "[Ob ''n'' 1]"
        "CupBox [Ob ''n'' 0, Ob ''n'' 1]" "\<lambda>F v. Inl TypeError" ?F] cu by blast
  also have "\<dots> = Inr (PyDiagram \<lparr>dom_ty = [Ob ''s'' 0, Ob ''s'' 1], cod_ty = [],
                      boxes = [CupBox [Ob ''s'' 0, Ob ''s'' 1]], offsets = [0]\<rparr>)"
    by (simp add: call_Ty_single call_Ob_def cups_def cups_layer_def slice_def Cup_def
        tensor_ty_def tensor_def Id_diagram_def box_diagram_def then_diagram_def Ob_r_def)
  finally have 1: "RigidFunctor_call (\<lambda>F v. Inl TypeError) ?F (PyBox (CupBox [Ob ''n'' 0, Ob ''n'' 1])) =
      Inr (PyDiagram \<lparr>dom_ty = [Ob ''s'' 0, Ob ''s'' 1], cod_ty = [],
                      boxes = [CupBox [Ob ''s'' 0, Ob ''s'' 1]], offsets = [0]\<rparr>)" .
  have "RigidFunctor_call (\<lambda>F v. Inl TypeError) ?F (PyBox (CapBox [Ob ''n'' 0, Ob ''n'' (- 1)])) =
        try_then (call_Ty ?F [Ob ''n'' 0]) (\<lambda>Fa. try_then (call_Ty ?F [Ob ''n'' (- 1)]) (\<lambda>Fb.
          try_then (caps Fa Fb) (\<lambda>r. Inr (PyDiagram r))))"
    using functor_preserves_cups_caps [of "[Ob ''n'' 0]" "[Ob ''n'' (- 1)]"
        "CapBox [Ob ''n'' 0, Ob ''n'' (- 1)]" "\<lambda>F v. Inl TypeError" ?F] ca by blast
  also have "\<dots> = Inr (PyDiagram \<lparr>dom_ty = [], cod_ty = [Ob ''s'' 0, Ob ''s'' (- 1)],
                      boxes = [CapBox [Ob ''s'' 0, Ob ''s'' (- 1)]], offsets = [0]\<rparr>)"
    by (simp add: call_Ty_single call_Ob_def caps_def caps_layer_def slice_def Cap_def
        tensor_ty_def tensor_def Id_diagram_def box_diagram_def then_diagram_def Ob_r_def Ob_l_def)
  finally have 2: "RigidFunctor_call (\<lambda>F v. Inl TypeError) ?F (PyBox (CapBox [Ob ''n'' 0, Ob ''n'' (- 1)])) =
      Inr (PyDiagram \<lparr>dom_ty = [], cod_ty = [Ob ''s'' 0, Ob ''s'' (- 1)],
                      boxes = [CapBox [Ob ''s'' 0, Ob ''s'' (- 1)]], offsets = [0]\<rparr>)" .
  show ?thesis using cu ca 1 2 by simp
qed

section \<open>Normal forms of snakes\<close>

lemma transpose_l_snake:
  "transpose_l (Id_diagram [Ob_r x]) =
     Inr \<lparr>dom_ty = [x], cod_ty = [x],
          boxes = [CapBox [Ob_r x, x], CupBox [x, Ob_r x]], offsets = [1, 0]\<rparr>"
  by (simp add: transpose_l_def Id_diagram_def caps_def cups_def caps_layer_def cups_layer_def
      slice_def Cap_def Cup_def tensor_def tensor_ty_def box_diagram_def then_diagram_def)

lemma transpose_r_snake:
  "transpose_r (Id_diagram [Ob_l x]) =
     Inr \<lparr>dom_ty = [x], cod_ty = [x],
          boxes = [CapBox [x, Ob_l x], CupBox [Ob_l x, x]], offsets = [0, 1]\<rparr>"
  by (simp add: transpose_r_def Id_diagram_def caps_def cups_def caps_layer_def cups_layer_def
      slice_def Cap_def Cup_def tensor_def tensor_ty_def box_diagram_def then_diagram_def Ob_r_eq_iff)

lemma find_move_left_snake:
  "find_move \<lparr>dom_ty = [x], cod_ty = [x],
          boxes = [CapBox [Ob_r x, x], CupBox [x, Ob_r x]], offsets = [1, 0]\<rparr> = Some (1, 0, ([], []), True)"
  by (simp add: find_move_def upt_rec try_leg_def follow_wire_def follow_wire_loop.simps)


lemma remove_snakes_no_boxes: "boxes d = [] \<Longrightarrow> remove_snakes d = Some ([], Inr d)"
  by (subst remove_snakes.simps) (simp add: find_move_def)

lemma remove_snakes_left_snake:
  "remove_snakes \<lparr>dom_ty = [x], cod_ty = [x],
          boxes = [CapBox [Ob_r x, x], CupBox [x, Ob_r x]], offsets = [1, 0]\<rparr>
   = Some ([Id_diagram [x]], Inr (Id_diagram [x]))"
  by (subst remove_snakes.simps)
     (simp add: find_move_left_snake move_def cut_def py_take_def py_drop_def
        remove_snakes_no_boxes Id_diagram_def)

lemma find_move_right_snake:
  "find_move \<lparr>dom_ty = [x], cod_ty = [x],
          boxes = [CapBox [x, Ob_l x], CupBox [Ob_l x, x]], offsets = [0, 1]\<rparr> = Some (1, 0, ([], []), False)"
  by (simp add: find_move_def upt_rec try_leg_def follow_wire_def follow_wire_loop.simps)

lemma remove_snakes_right_snake:
  "remove_snakes \<lparr>dom_ty = [x], cod_ty = [x],
          boxes = [CapBox [x, Ob_l x], CupBox [Ob_l x, x]], offsets = [0, 1]\<rparr>
   = Some ([Id_diagram [x]], Inr (Id_diagram [x]))"
  by (subst remove_snakes.simps)
     (simp add: find_move_right_snake move_def cut_def py_take_def py_drop_def
        remove_snakes_no_boxes Id_diagram_def)

text \<open>
  C3. For a type \<open>n\<close> of one object, the normal form of \<open>Id(n.r).transpose_l()\<close> and
  the normal form of \<open>Id(n.l).transpose_r()\<close> are \<open>Id(n)\<close>, for every normaliser of
  the monoidal layer that yields nothing on a diagram without boxes.
\<close>

theorem snakes_normalise_to_identity:
  assumes "monoidal (Id_diagram [x]) left = Some ([], None)"
  shows "(\<exists>d. transpose_l (Id_diagram (Ty_r [x])) = Inr d \<and>
             normal_form monoidal d left = Some (Inr (Id_diagram [x]))) \<and>
         (\<exists>d. transpose_r (Id_diagram (Ty_l [x])) = Inr d \<and>
             normal_form monoidal d left = Some (Inr (Id_diagram [x])))"
  using assms
  by (simp add: transpose_l_snake transpose_r_snake normal_form_def normalize_def
      remove_snakes_left_snake remove_snakes_right_snake)

theorem snakes_normalise_to_identity_witness:
  "(\<lambda>d left. Some ([], None)) (Id_diagram [Ob ''n'' 0]) False = Some ([], None) \<and>
   (\<exists>d. transpose_l (Id_diagram (Ty_r [Ob ''n'' 0])) = Inr d \<and>
        normal_form (\<lambda>d left. Some ([], None)) d False = Some (Inr (Id_diagram [Ob ''n'' 0]))) \<and>
   (\<exists>d. transpose_r (Id_diagram (Ty_l [Ob ''n'' 0])) = Inr d \<and>
        normal_form (\<lambda>d left. Some ([], None)) d False = Some (Inr (Id_diagram [Ob ''n'' 0])))"
  using snakes_normalise_to_identity [of "\<lambda>d left. Some ([], None)" "Ob ''n'' 0" False]
  by simp

lemma transpose_r_double:
  "transpose_r (Id_diagram (tensor_ty [x] [y])) = Inr (double_snake x y)"
  by (simp add: transpose_r_def Id_diagram_def caps_def cups_def caps_layer_def cups_layer_def
      slice_def Cap_def Cup_def tensor_def tensor_ty_def box_diagram_def then_diagram_def Ob_r_eq_iff
      upt_rec double_snake_def Ty_r_def)

lemma transpose_r_single:
  "transpose_r (Id_diagram [x]) =
     Inr \<lparr>dom_ty = [Ob_r x], cod_ty = [Ob_r x],
          boxes = [CapBox [Ob_r x, x], CupBox [x, Ob_r x]], offsets = [0, 1]\<rparr>"
  by (simp add: transpose_r_def Id_diagram_def caps_def cups_def caps_layer_def cups_layer_def
      slice_def Cap_def Cup_def tensor_def tensor_ty_def box_diagram_def then_diagram_def Ob_r_eq_iff)

lemma transpose_r_two:
  "try_then (transpose_r (Id_diagram [y])) (\<lambda>l. try_then (transpose_r (Id_diagram [x]))
      (\<lambda>r. Inr (tensor l r))) = Inr (two_snakes x y)"
  by (simp add: transpose_r_single tensor_def tensor_ty_def two_snakes_def)

lemma find_move_double: "find_move (double_snake x y) = Some (2, 0, ([1], []), False)"
  by (simp add: double_snake_def find_move_def upt_rec try_leg_def follow_wire_def follow_wire_loop.simps)

lemma find_move_two: "find_move (two_snakes x y) = Some (1, 0, ([], []), False)"
  by (simp add: two_snakes_def find_move_def upt_rec try_leg_def follow_wire_def follow_wire_loop.simps)

lemma find_move_one: "find_move (one_snake x y) = Some (1, 0, ([], []), False)"
  by (simp add: one_snake_def find_move_def upt_rec try_leg_def follow_wire_def follow_wire_loop.simps)

lemma move_double:
  "move (double_snake x y) 2 0 ([1], []) False = ([two_snakes x y, one_snake x y], None)"
  by (simp add: move_def double_snake_def two_snakes_def one_snake_def interchange_def
      moncat_interchange_def exchange_def cut_def py_take_def py_drop_def upt_rec)

lemma move_two:
  "move (two_snakes x y) 1 0 ([], []) False = ([one_snake x y], None)"
  by (simp add: move_def two_snakes_def one_snake_def cut_def py_take_def py_drop_def)

lemma move_one:
  "move (one_snake x y) 1 0 ([], []) False = ([Id_diagram [Ob_r y, Ob_r x]], None)"
  by (simp add: move_def one_snake_def cut_def py_take_def py_drop_def Id_diagram_def)

lemma remove_snakes_one:
  "remove_snakes (one_snake x y) =
     Some ([Id_diagram [Ob_r y, Ob_r x]], Inr (Id_diagram [Ob_r y, Ob_r x]))"
  by (subst remove_snakes.simps)
     (simp add: find_move_one move_one remove_snakes_no_boxes Id_diagram_def)

lemma remove_snakes_two:
  "remove_snakes (two_snakes x y) =
     Some ([one_snake x y, Id_diagram [Ob_r y, Ob_r x]], Inr (Id_diagram [Ob_r y, Ob_r x]))"
  by (subst remove_snakes.simps) (simp add: find_move_two move_two remove_snakes_one)

lemma remove_snakes_double:
  "remove_snakes (double_snake x y) =
     Some ([two_snakes x y, one_snake x y, Id_diagram [Ob_r y, Ob_r x]],
           Inr (Id_diagram [Ob_r y, Ob_r x]))"
  by (subst remove_snakes.simps) (simp add: find_move_double move_double remove_snakes_one)

text \<open>
  C7. For types \<open>a\<close> and \<open>b\<close> of one object each, \<open>Id(a @ b).transpose_r()\<close> is not
  equal to \<open>Id(b).transpose_r() @ Id(a).transpose_r()\<close>, and the two diagrams have
  the same normal form, \<open>Id((a @ b).r)\<close>, for every normaliser of the monoidal layer
  that yields nothing on a diagram without boxes.
\<close>

theorem transposes_differ_but_normalise_alike:
  assumes "monoidal (Id_diagram (Ty_r (tensor_ty [x] [y]))) left = Some ([], None)"
  shows "\<exists>D L R. transpose_r (Id_diagram (tensor_ty [x] [y])) = Inr D \<and>
           transpose_r (Id_diagram [y]) = Inr L \<and> transpose_r (Id_diagram [x]) = Inr R \<and>
           D \<noteq> tensor L R \<and>
           normal_form monoidal D left = normal_form monoidal (tensor L R) left \<and>
           normal_form monoidal D left = Some (Inr (Id_diagram (Ty_r (tensor_ty [x] [y]))))"
proof -
  have t: "tensor \<lparr>dom_ty = [Ob_r y], cod_ty = [Ob_r y],
          boxes = [CapBox [Ob_r y, y], CupBox [y, Ob_r y]], offsets = [0, 1]\<rparr>
          \<lparr>dom_ty = [Ob_r x], cod_ty = [Ob_r x],
          boxes = [CapBox [Ob_r x, x], CupBox [x, Ob_r x]], offsets = [0, 1]\<rparr> = two_snakes x y"
    by (simp add: tensor_def tensor_ty_def two_snakes_def)
  have ne: "double_snake x y \<noteq> two_snakes x y"
    by (simp add: double_snake_def two_snakes_def)
  have id: "Id_diagram (Ty_r (tensor_ty [x] [y])) = Id_diagram [Ob_r y, Ob_r x]"
    by (simp add: tensor_ty_def Ty_r_def)
  have nd: "normal_form monoidal (double_snake x y) left = Some (Inr (Id_diagram [Ob_r y, Ob_r x]))"
    using assms by (simp add: normal_form_def normalize_def remove_snakes_double id)
  have nt: "normal_form monoidal (two_snakes x y) left = Some (Inr (Id_diagram [Ob_r y, Ob_r x]))"
    using assms by (simp add: normal_form_def normalize_def remove_snakes_two id)
  show ?thesis
    using transpose_r_double [of x y] transpose_r_single [of y] transpose_r_single [of x] t ne nd nt id
    by simp
qed

theorem transposes_differ_but_normalise_alike_witness:
  "(\<lambda>d left. Some ([], None)) (Id_diagram (Ty_r (tensor_ty [Ob ''a'' 0] [Ob ''b'' 0]))) False =
     Some ([], None) \<and>
   (\<exists>D L R. transpose_r (Id_diagram (tensor_ty [Ob ''a'' 0] [Ob ''b'' 0])) = Inr D \<and>
           transpose_r (Id_diagram [Ob ''b'' 0]) = Inr L \<and>
           transpose_r (Id_diagram [Ob ''a'' 0]) = Inr R \<and>
           D \<noteq> tensor L R \<and>
           normal_form (\<lambda>d left. Some ([], None)) D False =
             normal_form (\<lambda>d left. Some ([], None)) (tensor L R) False \<and>
           normal_form (\<lambda>d left. Some ([], None)) D False =
             Some (Inr (Id_diagram (Ty_r (tensor_ty [Ob ''a'' 0] [Ob ''b'' 0])))))"
  using transposes_differ_but_normalise_alike
    [of "\<lambda>d left. Some ([], None)" "Ob ''a'' 0" "Ob ''b'' 0" False]
  by simp

section \<open>The diagrams yielded by \<open>normalize\<close>\<close>

lemma same_ends_refl [simp]: "same_ends d d"
  by (simp add: same_ends_def)

lemma same_ends_trans: "same_ends a b \<Longrightarrow> same_ends b c \<Longrightarrow> same_ends a c"
  by (simp add: same_ends_def)

lemma exchange_same_ends: "exchange d i left = Inr d' \<Longrightarrow> same_ends d d'"
  by (auto simp: exchange_def Let_def same_ends_def split: if_splits)

lemma exchanges_same_ends: "exchanges d ks left = Inr d' \<Longrightarrow> same_ends d d'"
proof (induction ks arbitrary: d)
  case Nil
  then show ?case by simp
next
  case (Cons k ks)
  then show ?case
    by (cases "exchange d k left") (auto dest: exchange_same_ends intro: same_ends_trans)
qed

lemma interchange_same_ends: "interchange d i j left = Inr d' \<Longrightarrow> same_ends d d'"
  by (cases "moncat_interchange d i j left")
     (auto simp: interchange_def moncat_interchange_def same_ends_def
        dest!: exchanges_same_ends split: if_splits)


lemma left_snake_left_ends:
  "left_snake_left d L cap R = (ys, r) \<Longrightarrow>
     (\<forall>y\<in>set ys. same_ends d y) \<and> (\<forall>d' c R'. r = Inr (d', c, R') \<longrightarrow> d' = last (d # ys))"
proof (induction L arbitrary: d cap R ys r)
  case Nil
  then show ?case by auto
next
  case (Cons box rest)
  show ?case
  proof (cases "interchange d box cap False")
    case (Inl e)
    with Cons.prems show ?thesis by auto
  next
    case (Inr d')
    obtain zs r' where rec: "left_snake_left d' rest (cap + 1)
        (map (\<lambda>right_box. if right_box < box then right_box + 1 else right_box) R) = (zs, r')"
      by (cases "left_snake_left d' rest (cap + 1)
        (map (\<lambda>right_box. if right_box < box then right_box + 1 else right_box) R)") auto
    from Cons.prems Inr rec have ys: "ys = d' # zs" and r: "r = r'" by auto
    have e: "same_ends d d'" using interchange_same_ends [OF Inr] .
    from Cons.IH [OF rec] e show ?thesis
      by (auto simp: ys r intro: same_ends_trans)
  qed
qed

lemma right_snake_left_ends:
  "right_snake_left d L cup R = (ys, r) \<Longrightarrow>
     (\<forall>y\<in>set ys. same_ends d y) \<and> (\<forall>d' c R'. r = Inr (d', c, R') \<longrightarrow> d' = last (d # ys))"
proof (induction L arbitrary: d cup R ys r)
  case Nil
  then show ?case by auto
next
  case (Cons box rest)
  show ?case
  proof (cases "interchange d box cup False")
    case (Inl e)
    with Cons.prems show ?thesis by auto
  next
    case (Inr d')
    obtain zs r' where rec: "right_snake_left d' rest (cup - 1)
        (map (\<lambda>right_box. if right_box > box then right_box - 1 else right_box) R) = (zs, r')"
      by (cases "right_snake_left d' rest (cup - 1)
        (map (\<lambda>right_box. if right_box > box then right_box - 1 else right_box) R)") auto
    from Cons.prems Inr rec have ys: "ys = d' # zs" and r: "r = r'" by auto
    have e: "same_ends d d'" using interchange_same_ends [OF Inr] .
    from Cons.IH [OF rec] e show ?thesis
      by (auto simp: ys r intro: same_ends_trans)
  qed
qed

lemma left_snake_right_ends:
  "left_snake_right d R cup = (ys, r) \<Longrightarrow>
     (\<forall>y\<in>set ys. same_ends d y) \<and> (\<forall>d' c. r = Inr (d', c) \<longrightarrow> d' = last (d # ys))"
proof (induction R arbitrary: d cup ys r)
  case Nil
  then show ?case by auto
next
  case (Cons box rest)
  show ?case
  proof (cases "interchange d box cup False")
    case (Inl e)
    with Cons.prems show ?thesis by auto
  next
    case (Inr d')
    obtain zs r' where rec: "left_snake_right d' rest (cup - 1) = (zs, r')"
      by (cases "left_snake_right d' rest (cup - 1)") auto
    from Cons.prems Inr rec have ys: "ys = d' # zs" and r: "r = r'" by auto
    have e: "same_ends d d'" using interchange_same_ends [OF Inr] .
    from Cons.IH [OF rec] e show ?thesis
      by (auto simp: ys r intro: same_ends_trans)
  qed
qed

lemma right_snake_right_ends:
  "right_snake_right d R cap = (ys, r) \<Longrightarrow>
     (\<forall>y\<in>set ys. same_ends d y) \<and> (\<forall>d' c. r = Inr (d', c) \<longrightarrow> d' = last (d # ys))"
proof (induction R arbitrary: d cap ys r)
  case Nil
  then show ?case by auto
next
  case (Cons box rest)
  show ?case
  proof (cases "interchange d box cap False")
    case (Inl e)
    with Cons.prems show ?thesis by auto
  next
    case (Inr d')
    obtain zs r' where rec: "right_snake_right d' rest (cap + 1) = (zs, r')"
      by (cases "right_snake_right d' rest (cap + 1)") auto
    from Cons.prems Inr rec have ys: "ys = d' # zs" and r: "r = r'" by auto
    have e: "same_ends d d'" using interchange_same_ends [OF Inr] .
    from Cons.IH [OF rec] e show ?thesis
      by (auto simp: ys r intro: same_ends_trans)
  qed
qed

lemma cut_same_ends [simp]: "same_ends d (cut d cup cap)"
  by (simp add: cut_def same_ends_def)

lemma same_ends_last: "\<forall>y\<in>set ys. same_ends d y \<Longrightarrow> same_ends d (last (d # ys))"
  by simp

lemma move_ends:
  assumes "move d cup cap obstructions left_snake = (ys, st)"
  shows "(\<forall>y\<in>set ys. same_ends d y) \<and> (st = None \<longrightarrow> ys \<noteq> [])"
proof -
  obtain L R where obs: "obstructions = (L, R)" by (cases obstructions)
  show ?thesis
  proof (cases left_snake)
    case True
    obtain as ra where a: "left_snake_left d L cap R = (as, ra)"
      by (cases "left_snake_left d L cap R")
    note ea = left_snake_left_ends [OF a]
    show ?thesis
    proof (cases ra)
      case (Inl e)
      with assms obs True a ea show ?thesis by (auto simp: move_def)
    next
      case (Inr t)
      obtain d1 cap1 right1 where t: "t = (d1, cap1, right1)" by (cases t)
      obtain bs rb where b: "left_snake_right d1 (rev right1) cup = (bs, rb)"
        by (cases "left_snake_right d1 (rev right1) cup")
      note eb = left_snake_right_ends [OF b]
      have d1: "same_ends d d1" using ea Inr t same_ends_last [of as d] by simp
      have bs: "\<forall>y\<in>set bs. same_ends d y" using eb d1 by (auto intro: same_ends_trans)
      show ?thesis
      proof (cases rb)
        case (Inl e)
        with assms obs True a Inr t b ea bs show ?thesis by (auto simp: move_def)
      next
        case (Inr u)
        obtain d2 cup2 where u: "u = (d2, cup2)" by (cases u)
        have "same_ends d1 d2" using eb Inr u same_ends_last [of bs d1] by simp
        then have "same_ends d (cut d2 cup2 cap1)"
          using d1 by (auto intro: same_ends_trans [OF _ cut_same_ends] same_ends_trans)
        with assms obs True a \<open>ra = Inr t\<close> t b Inr u ea bs show ?thesis
          by (auto simp: move_def)
      qed
    qed
  next
    case False
    obtain as ra where a: "right_snake_left d (rev L) cup R = (as, ra)"
      by (cases "right_snake_left d (rev L) cup R")
    note ea = right_snake_left_ends [OF a]
    show ?thesis
    proof (cases ra)
      case (Inl e)
      with assms obs False a ea show ?thesis by (auto simp: move_def)
    next
      case (Inr t)
      obtain d1 cup1 right1 where t: "t = (d1, cup1, right1)" by (cases t)
      obtain bs rb where b: "right_snake_right d1 right1 cap = (bs, rb)"
        by (cases "right_snake_right d1 right1 cap")
      note eb = right_snake_right_ends [OF b]
      have d1: "same_ends d d1" using ea Inr t same_ends_last [of as d] by simp
      have bs: "\<forall>y\<in>set bs. same_ends d y" using eb d1 by (auto intro: same_ends_trans)
      show ?thesis
      proof (cases rb)
        case (Inl e)
        with assms obs False a Inr t b ea bs show ?thesis by (auto simp: move_def)
      next
        case (Inr u)
        obtain d2 cap2 where u: "u = (d2, cap2)" by (cases u)
        have "same_ends d1 d2" using eb Inr u same_ends_last [of bs d1] by simp
        then have "same_ends d (cut d2 cup1 cap2)"
          using d1 by (auto intro: same_ends_trans [OF _ cut_same_ends] same_ends_trans)
        with assms obs False a \<open>ra = Inr t\<close> t b Inr u ea bs show ?thesis
          by (auto simp: move_def)
      qed
    qed
  qed
qed

lemma remove_snakes_ends:
  assumes "remove_snakes d0 = Some res0"
  shows "run_ends d0 res0"
proof (rule remove_snakes.raw_induct [where P = run_ends, OF _ assms])
  fix rs d res
  assume IH: "\<And>x y. rs x = Some y \<Longrightarrow> run_ends x y"
    and body: "(case find_move d of None \<Rightarrow> Some ([], Inr d)
      | Some yankable \<Rightarrow>
          (case move d (int (fst yankable)) (int (fst (snd yankable)))
                  (map int (fst (fst (snd (snd yankable)))),
                   map int (snd (fst (snd (snd yankable)))))
                  (snd (snd (snd yankable))) of
             (ys, Some e) \<Rightarrow> Some (ys, Inl e)
           | (ys, None) \<Rightarrow>
               Option.bind (rs (last (d # ys)))
                 (\<lambda>(zs, r). Some (ys @ zs, r)))) = Some res"
  show "run_ends d res"
  proof (cases "find_move d")
    case None
    with body show ?thesis by (auto simp: run_ends_def)
  next
    case (Some yankable)
    obtain ys st where m: "move d (int (fst yankable)) (int (fst (snd yankable)))
                  (map int (fst (fst (snd (snd yankable)))),
                   map int (snd (fst (snd (snd yankable)))))
                  (snd (snd (snd yankable))) = (ys, st)"
      by (cases "move d (int (fst yankable)) (int (fst (snd yankable)))
                  (map int (fst (fst (snd (snd yankable)))),
                   map int (snd (fst (snd (snd yankable)))))
                  (snd (snd (snd yankable)))")
    note em = move_ends [OF m]
    show ?thesis
    proof (cases st)
      case (Some e)
      with body \<open>find_move d = Some yankable\<close> m em show ?thesis
        by (auto simp: run_ends_def)
    next
      case None
      then have ne: "ys \<noteq> []" using em by simp
      from body \<open>find_move d = Some yankable\<close> m None
      obtain zs r where rec: "rs (last (d # ys)) = Some (zs, r)" and res: "res = (ys @ zs, r)"
        by (auto simp: bind_eq_Some_conv)
      have l: "same_ends d (last (d # ys))" using em same_ends_last by blast
      have r: "run_ends (last (d # ys)) (zs, r)" using IH [OF rec] .
      have zs: "\<forall>y\<in>set zs. same_ends d y"
        using r l by (auto simp: run_ends_def intro: same_ends_trans)
      have "last (last (d # ys) # zs) = last (d # ys @ zs)" using ne by simp
      with r zs em show ?thesis
        by (auto simp: res run_ends_def)
    qed
  qed
qed

section \<open>Snake removal ends, and raises nothing\<close>

lemma shift_simps [simp]: "fst (shift k l) = fst l" "snd (shift k l) = snd l + k"
  "shift k (b, off) = (b, off + k)"
  by (simp_all add: shift_def)

lemma with_layers_simps [simp]:
  "boxes (with_layers d ls) = map fst ls"
  "offsets (with_layers d ls) = map snd ls"
  "dom_ty (with_layers d ls) = dom_ty d"
  "cod_ty (with_layers d ls) = cod_ty d"
  "with_layers (with_layers d ls) ks = with_layers d ks"
  by (simp_all add: with_layers_def)

lemma with_layers_layers:
  "length (offsets d) = length (boxes d) \<Longrightarrow> with_layers d (layers d) = d"
  by (simp add: with_layers_def layers_def)

lemma interchange_eq: "interchange d i j left = moncat_interchange d i j left"
  by (cases "moncat_interchange d i j left") (simp_all add: interchange_def)

lemma exchange_layers:
  "exchange (with_layers d (pre @ (b0, o0) # (b1, o1) # post)) (length pre) False =
     (if o0 \<ge> o1 + int (length (box_dom b1))
      then Inr (with_layers d (pre @ (b1, o1) # (b0, o0 + width_change b1) # post))
      else if o1 \<ge> o0 + int (length (box_cod b0))
      then Inr (with_layers d (pre @ (b1, o1 - width_change b0) # (b0, o0) # post))
      else Inl InterchangerError)"
  by (simp add: exchange_def Let_def with_layers_def nth_append width_change_def)

lemma exchanges_up:
  assumes "\<forall>X\<in>set Xs. snd X \<ge> om + int (length (box_dom m))"
  shows "exchanges (with_layers d (pre @ Xs @ (m, om) # post))
           (rev [length pre..<length pre + length Xs]) False =
         Inr (with_layers d (pre @ (m, om) # map (shift (width_change m)) Xs @ post))"
  using assms
proof (induction Xs arbitrary: post rule: rev_induct)
  case Nil
  then show ?case by simp
next
  case (snoc X Xs)
  obtain b off where X: "X = (b, off)" by (cases X)
  have cond: "off \<ge> om + int (length (box_dom m))" using snoc.prems X by simp
  have ex: "exchange (with_layers d ((pre @ Xs) @ (b, off) # (m, om) # post)) (length (pre @ Xs)) False =
        Inr (with_layers d ((pre @ Xs) @ (m, om) # (b, off + width_change m) # post))"
    using cond by (simp only: exchange_layers) simp
  have IH: "exchanges (with_layers d (pre @ Xs @ (m, om) # (b, off + width_change m) # post))
           (rev [length pre..<length pre + length Xs]) False =
         Inr (with_layers d (pre @ (m, om) # map (shift (width_change m)) Xs @ (b, off + width_change m) # post))"
    using snoc.IH [of "(b, off + width_change m) # post"] snoc.prems by simp
  show ?case
    using ex IH by (simp add: X)
qed

lemma exchanges_down:
  assumes "\<forall>X\<in>set Xs. \<not> (om \<ge> snd X + int (length (box_dom (fst X))))
                        \<and> snd X \<ge> om + int (length (box_cod m))"
  shows "exchanges (with_layers d (pre @ (m, om) # Xs @ post))
           [length pre..<length pre + length Xs] False =
         Inr (with_layers d (pre @ map (shift (- width_change m)) Xs @ (m, om) # post))"
  using assms
proof (induction Xs arbitrary: pre)
  case Nil
  then show ?case by simp
next
  case (Cons X Xs)
  obtain b off where X: "X = (b, off)" by (cases X)
  have c1: "\<not> (om \<ge> off + int (length (box_dom b)))"
    and c2: "off \<ge> om + int (length (box_cod m))"
    using Cons.prems X by simp_all
  have ex: "exchange (with_layers d (pre @ (m, om) # (b, off) # Xs @ post)) (length pre) False =
        Inr (with_layers d (pre @ (b, off - width_change m) # (m, om) # Xs @ post))"
    using c1 c2 by (simp only: exchange_layers) simp
  have IH: "exchanges (with_layers d ((pre @ [(b, off - width_change m)]) @ (m, om) # Xs @ post))
           [length (pre @ [(b, off - width_change m)])..<length (pre @ [(b, off - width_change m)]) + length Xs] False =
         Inr (with_layers d ((pre @ [(b, off - width_change m)]) @ map (shift (- width_change m)) Xs @ (m, om) # post))"
    using Cons.IH [of "pre @ [(b, off - width_change m)]"] Cons.prems by simp
  have upt: "[length pre..<length pre + length (X # Xs)] = length pre # [Suc (length pre)..<Suc (length pre) + length Xs]"
    by (subst upt_conv_Cons) simp_all
  have g: "pre @ (m, om) # (X # Xs) @ post = pre @ (m, om) # (b, off) # Xs @ post"
    by (simp add: X)
  show ?case
    apply (simp only: g upt exchanges.simps ex try_then_def sum.case)
    using IH by (simp add: X)
qed

lemma interchange_up:
  assumes "\<forall>X\<in>set Xs. snd X \<ge> om + int (length (box_dom m))"
  shows "interchange (with_layers d (pre @ Xs @ (m, om) # post))
           (int (length pre + length Xs)) (int (length pre)) False =
         Inr (with_layers d (pre @ (m, om) # map (shift (width_change m)) Xs @ post))"
proof (cases "Xs = []")
  case True
  then show ?thesis by (simp add: interchange_eq moncat_interchange_def)
next
  case False
  then show ?thesis
    using exchanges_up [OF assms, of d pre post]
    by (simp add: interchange_eq moncat_interchange_def nat_int_add)
qed

lemma interchange_down:
  assumes "\<forall>X\<in>set Xs. \<not> (om \<ge> snd X + int (length (box_dom (fst X))))
                        \<and> snd X \<ge> om + int (length (box_cod m))"
  shows "interchange (with_layers d (pre @ (m, om) # Xs @ post))
           (int (length pre)) (int (length pre + length Xs)) False =
         Inr (with_layers d (pre @ map (shift (- width_change m)) Xs @ (m, om) # post))"
  using exchanges_down [OF assms, of d pre post]
  by (simp add: interchange_eq moncat_interchange_def nat_int_add)

lemma interchange_adjacent:
  "interchange d (int (Suc i)) (int i) left = interchange d (int i) (int (Suc i)) left"
proof -
  have "[nat (int i)..<nat (int (Suc i))] = [i]" by (simp only: nat_int) simp
  then show ?thesis
    by (auto simp: interchange_eq moncat_interchange_def simp del: of_nat_Suc)
qed

lemma between_Cons:
  assumes "length (offsets d) = length (boxes d)" "Suc i < u" "u \<le> length (boxes d)"
  shows "between d i u = (boxes d ! Suc i, offsets d ! Suc i) # between d (Suc i) u"
proof -
  have len: "Suc i < length (layers d)" using assms by (simp add: layers_def)
  have "drop (Suc i) (layers d) = layers d ! Suc i # drop (Suc (Suc i)) (layers d)"
    using len by (simp add: Cons_nth_drop_Suc)
  moreover have "u - Suc i = Suc (u - Suc (Suc i))" using assms by simp
  moreover have "layers d ! Suc i = (boxes d ! Suc i, offsets d ! Suc i)"
    using len assms by (simp add: layers_def)
  ultimately show ?thesis by (simp add: between_def)
qed

lemma follow_wire_loop_layers:
  assumes "length (offsets d) = length (boxes d)" "i < length (boxes d)"
    "follow_wire_loop d i j Lacc Racc = (u, ju, (L, R))"
  shows "i < u \<and> u \<le> length (boxes d) \<and> free_wire j (between d i u) \<and>
         ju = wire_end j (between d i u) \<and>
         L = Lacc @ left_idx (Suc i) j (between d i u) \<and>
         R = Racc @ right_idx (Suc i) j (between d i u) \<and>
         (u < length (boxes d) \<longrightarrow> covers ju (boxes d ! u, offsets d ! u))"
  using assms
proof (induction d i j Lacc Racc rule: follow_wire_loop.induct)
  case (1 d i j Lacc Racc)
  let ?n = "length (boxes d)"
  let ?l = "(boxes d ! Suc i, offsets d ! Suc i)"
  note eq = follow_wire_loop.simps [of d i j Lacc Racc]
  show ?case
  proof (cases "int i < int ?n - 1")
    case False
    then have "u = ?n" "ju = j" "L = Lacc" "R = Racc"
      using "1.prems"(3) eq by simp_all
    moreover have "i = ?n - 1" using False "1.prems"(2) by simp
    ultimately show ?thesis using "1.prems"(2) by (simp add: between_def)
  next
    case True
    then have si: "Suc i < ?n" by simp
    show ?thesis
    proof (cases "covers j ?l")
      case True
      then have "u = Suc i" "ju = j" "L = Lacc" "R = Racc"
        using "1.prems"(3) eq \<open>int i < int ?n - 1\<close> by (simp_all add: covers_def)
      then show ?thesis using True si by (simp add: between_def)
    next
      case nc: False
      show ?thesis
      proof (cases "offsets d ! Suc i \<le> j")
        case le: True
        have rec: "follow_wire_loop d (Suc i) (pass j ?l) (Lacc @ [Suc i]) Racc = (u, ju, (L, R))"
          using "1.prems"(3) eq \<open>int i < int ?n - 1\<close> nc le
          by (simp add: covers_def pass_def width_change_def)
        have IH: "Suc i < u \<and> u \<le> ?n \<and> free_wire (pass j ?l) (between d (Suc i) u) \<and>
           ju = wire_end (pass j ?l) (between d (Suc i) u) \<and>
           L = (Lacc @ [Suc i]) @ left_idx (Suc (Suc i)) (pass j ?l) (between d (Suc i) u) \<and>
           R = Racc @ right_idx (Suc (Suc i)) (pass j ?l) (between d (Suc i) u) \<and>
           (u < ?n \<longrightarrow> covers ju (boxes d ! u, offsets d ! u))"
          using "1.IH"(1) \<open>int i < int ?n - 1\<close> "1.prems"(1) si rec nc [unfolded covers_def] le
          by (auto simp add: pass_def width_change_def)
        have b: "between d i u = ?l # between d (Suc i) u"
          using between_Cons [OF "1.prems"(1), of i u] IH by simp
        show ?thesis using IH nc le by (auto simp add: b)
      next
        case gt: False
        have rec: "follow_wire_loop d (Suc i) (pass j ?l) Lacc (Racc @ [Suc i]) = (u, ju, (L, R))"
          using "1.prems"(3) eq \<open>int i < int ?n - 1\<close> nc gt
          by (simp add: covers_def pass_def width_change_def)
        have IH: "Suc i < u \<and> u \<le> ?n \<and> free_wire (pass j ?l) (between d (Suc i) u) \<and>
           ju = wire_end (pass j ?l) (between d (Suc i) u) \<and>
           L = Lacc @ left_idx (Suc (Suc i)) (pass j ?l) (between d (Suc i) u) \<and>
           R = (Racc @ [Suc i]) @ right_idx (Suc (Suc i)) (pass j ?l) (between d (Suc i) u) \<and>
           (u < ?n \<longrightarrow> covers ju (boxes d ! u, offsets d ! u))"
          using "1.IH"(2) \<open>int i < int ?n - 1\<close> "1.prems"(1) si rec nc [unfolded covers_def] gt
          by (auto simp add: pass_def width_change_def)
        have b: "between d i u = ?l # between d (Suc i) u"
          using between_Cons [OF "1.prems"(1), of i u] IH by simp
        show ?thesis using IH nc gt by (auto simp add: b)
      qed
    qed
  qed
qed

lemma right_idx_bounds: "x \<in> set (right_idx s j seg) \<Longrightarrow> s \<le> x \<and> x < s + length seg"
  by (induction seg arbitrary: s j) (fastforce split: if_splits)+

lemma left_idx_bounds: "x \<in> set (left_idx s j seg) \<Longrightarrow> s \<le> x \<and> x < s + length seg"
  by (induction seg arbitrary: s j) (fastforce split: if_splits)+

lemma bump_below:
  "map (\<lambda>rb. if rb < int s then rb + 1 else rb) (map int [a..<s]) = map int [Suc a..<Suc s]"
proof -
  have "map (\<lambda>rb. if rb < int s then rb + 1 else rb) (map int [a..<s]) = map (\<lambda>n. int (Suc n)) [a..<s]"
    by (simp add: comp_def)
  also have "\<dots> = map int (map Suc [a..<s])" by (simp add: comp_def)
  also have "map Suc [a..<s] = [Suc a..<Suc s]" by (simp add: map_Suc_upt)
  finally show ?thesis .
qed

lemma bump_above:
  "\<forall>x\<in>set xs. s \<le> x \<Longrightarrow> map (\<lambda>rb. if rb < int s then rb + 1 else rb) (map int xs) = map int xs"
  by (induction xs) auto

lemma left_snake_left_sweep:
  assumes "free_wire j seg" "\<forall>X\<in>set Rs. j < snd X"
  shows "\<exists>ys Ls Rs'.
     left_snake_left (with_layers d (pre @ (cb, j) # Rs @ seg @ post))
        (map int (left_idx (Suc (length pre + length Rs)) j seg)) (int (length pre))
        (map int ([Suc (length pre)..<Suc (length pre + length Rs)]
                  @ right_idx (Suc (length pre + length Rs)) j seg))
      = (ys, Inr (with_layers d (pre @ Ls @ (cb, wire_end j seg) # Rs' @ post),
                  int (length pre + length Ls),
                  map int [Suc (length pre + length Ls)..<Suc (length pre + length Ls + length Rs')]))
     \<and> (\<forall>X\<in>set Rs'. wire_end j seg < snd X)
     \<and> length Ls + length Rs' = length Rs + length seg
     \<and> fst ` set (Ls @ Rs') = fst ` set (Rs @ seg)"
  using assms
proof (induction seg arbitrary: pre Rs j)
  case Nil
  show ?case
    apply (rule exI [of _ "[]"], rule exI [of _ "[]"], rule exI [of _ Rs])
    using Nil by simp
next
  case (Cons l seg)
  obtain b off where l: "l = (b, off)" by (cases l)
  have nc: "\<not> covers j l" and fw: "free_wire (pass j l) seg" using Cons.prems(1) by simp_all
  show ?case
  proof (cases "off \<le> j")
    case True
    let ?dl = "width_change b"
    have p: "pass j l = j + ?dl" using True l by (simp add: pass_def)
    have below: "off + int (length (box_dom b)) \<le> j"
      using nc True l by (simp add: covers_def)
    have up: "\<forall>X\<in>set ((cb, j) # Rs). snd X \<ge> off + int (length (box_dom b))"
      using below Cons.prems(2) by auto
    let ?d = "with_layers d (pre @ (cb, j) # Rs @ l # seg @ post)"
    let ?d' = "with_layers d ((pre @ [(b, off)]) @ (cb, j + ?dl) # map (shift ?dl) Rs @ seg @ post)"
    have ic: "interchange ?d (int (Suc (length pre + length Rs))) (int (length pre)) False = Inr ?d'"
      using interchange_up [OF up, of d pre "seg @ post"] by (simp add: l)
    have Rs': "\<forall>X\<in>set (map (shift ?dl) Rs). j + ?dl < snd X"
      using Cons.prems(2) by auto
    from Cons.IH [of "j + ?dl" "map (shift ?dl) Rs" "pre @ [(b, off)]"] fw p Rs'
    obtain ys Ls Rs'' where
      run: "left_snake_left ?d'
        (map int (left_idx (Suc (Suc (length pre + length Rs))) (j + ?dl) seg)) (int (Suc (length pre)))
        (map int ([Suc (Suc (length pre))..<Suc (Suc (length pre + length Rs))]
                  @ right_idx (Suc (Suc (length pre + length Rs))) (j + ?dl) seg))
      = (ys, Inr (with_layers d ((pre @ [(b, off)]) @ Ls @ (cb, wire_end (j + ?dl) seg) # Rs'' @ post),
                  int (Suc (length pre) + length Ls),
                  map int [Suc (Suc (length pre) + length Ls)..<Suc (Suc (length pre) + length Ls + length Rs'')]))"
      and gt: "\<forall>X\<in>set Rs''. wire_end (j + ?dl) seg < snd X"
      and len: "length Ls + length Rs'' = length Rs + length seg"
      and bx: "fst ` set (Ls @ Rs'') = fst ` set (map (shift ?dl) Rs @ seg)"
      by (auto simp del: upt_Suc)
    have bump: "map (\<lambda>rb. if rb < int (Suc (length pre + length Rs)) then rb + 1 else rb)
        (map int ([Suc (length pre)..<Suc (length pre + length Rs)]
                  @ right_idx (Suc (Suc (length pre + length Rs))) (j + ?dl) seg))
       = map int ([Suc (Suc (length pre))..<Suc (Suc (length pre + length Rs))]
                  @ right_idx (Suc (Suc (length pre + length Rs))) (j + ?dl) seg)"
      using bump_below [of "Suc (length pre + length Rs)" "Suc (length pre)"]
        bump_above [of "right_idx (Suc (Suc (length pre + length Rs))) (j + ?dl) seg" "Suc (length pre + length Rs)"]
        right_idx_bounds [of _ "Suc (Suc (length pre + length Rs))" "j + ?dl" seg]
      by (simp del: upt_Suc) fastforce
    have lhs: "left_snake_left ?d
        (map int (left_idx (Suc (length pre + length Rs)) j (l # seg))) (int (length pre))
        (map int ([Suc (length pre)..<Suc (length pre + length Rs)]
                  @ right_idx (Suc (length pre + length Rs)) j (l # seg)))
       = (?d' # ys, Inr (with_layers d ((pre @ [(b, off)]) @ Ls @ (cb, wire_end (j + ?dl) seg) # Rs'' @ post),
                  int (Suc (length pre) + length Ls),
                  map int [Suc (Suc (length pre) + length Ls)..<Suc (Suc (length pre) + length Ls + length Rs'')]))"
    proof -
      have li: "map int (left_idx (Suc (length pre + length Rs)) j (l # seg))
          = int (Suc (length pre + length Rs)) # map int (left_idx (Suc (Suc (length pre + length Rs))) (j + ?dl) seg)"
        using True l p by simp
      have ri: "right_idx (Suc (length pre + length Rs)) j (l # seg)
          = right_idx (Suc (Suc (length pre + length Rs))) (j + ?dl) seg"
        using True l p by simp
      have cap1: "int (length pre) + 1 = int (Suc (length pre))" by simp
      show ?thesis
        by (simp only: li ri left_snake_left.simps ic sum.case bump cap1 run prod.case)
    qed
    have e1: "pre @ (cb, j) # Rs @ (l # seg) @ post = pre @ (cb, j) # Rs @ l # seg @ post"
      by simp
    have e2: "pre @ ((b, off) # Ls) @ (cb, wire_end j (l # seg)) # Rs'' @ post
        = (pre @ [(b, off)]) @ Ls @ (cb, wire_end (j + ?dl) seg) # Rs'' @ post"
      using p by simp
    have e3: "length pre + length ((b, off) # Ls) = Suc (length pre) + length Ls"
      by simp
    have "left_snake_left (with_layers d (pre @ (cb, j) # Rs @ (l # seg) @ post))
        (map int (left_idx (Suc (length pre + length Rs)) j (l # seg))) (int (length pre))
        (map int ([Suc (length pre)..<Suc (length pre + length Rs)]
                  @ right_idx (Suc (length pre + length Rs)) j (l # seg)))
      = (?d' # ys, Inr (with_layers d (pre @ ((b, off) # Ls) @ (cb, wire_end j (l # seg)) # Rs'' @ post),
                  int (length pre + length ((b, off) # Ls)),
                  map int [Suc (length pre + length ((b, off) # Ls))..<Suc (length pre + length ((b, off) # Ls) + length Rs'')]))"
      using lhs by (simp only: e1 e2 e3)
    moreover have "\<forall>X\<in>set Rs''. wire_end j (l # seg) < snd X"
      using gt p by simp
    moreover have "length ((b, off) # Ls) + length Rs'' = length Rs + length (l # seg)"
      using len by simp
    moreover have "fst ` set (((b, off) # Ls) @ Rs'') = fst ` set (Rs @ l # seg)"
      using bx l by (simp add: image_Un image_image)
    ultimately show ?thesis by blast
  next
    case False
    have p: "pass j l = j" using False l by (simp add: pass_def)
    have Rs': "\<forall>X\<in>set (Rs @ [l]). j < snd X" using Cons.prems(2) False l by auto
    from Cons.IH [of j "Rs @ [l]" pre] fw p Rs'
    obtain ys Ls Rs'' where
      run: "left_snake_left (with_layers d (pre @ (cb, j) # (Rs @ [l]) @ seg @ post))
        (map int (left_idx (Suc (length pre + length (Rs @ [l]))) j seg)) (int (length pre))
        (map int ([Suc (length pre)..<Suc (length pre + length (Rs @ [l]))]
                  @ right_idx (Suc (length pre + length (Rs @ [l]))) j seg))
      = (ys, Inr (with_layers d (pre @ Ls @ (cb, wire_end j seg) # Rs'' @ post),
                  int (length pre + length Ls),
                  map int [Suc (length pre + length Ls)..<Suc (length pre + length Ls + length Rs'')]))"
      and gt: "\<forall>X\<in>set Rs''. wire_end j seg < snd X"
      and len: "length Ls + length Rs'' = length (Rs @ [l]) + length seg"
      and bx: "fst ` set (Ls @ Rs'') = fst ` set ((Rs @ [l]) @ seg)"
      by (auto simp del: upt_Suc)
    have e1: "pre @ (cb, j) # Rs @ (l # seg) @ post = pre @ (cb, j) # (Rs @ [l]) @ seg @ post"
      by simp
    have e2: "left_idx (Suc (length pre + length Rs)) j (l # seg)
         = left_idx (Suc (length pre + length (Rs @ [l]))) j seg"
      using False l p by simp
    have e3: "[Suc (length pre)..<Suc (length pre + length Rs)] @ right_idx (Suc (length pre + length Rs)) j (l # seg)
         = [Suc (length pre)..<Suc (length pre + length (Rs @ [l]))] @ right_idx (Suc (length pre + length (Rs @ [l]))) j seg"
      using False l p by simp
    have e4: "wire_end j (l # seg) = wire_end j seg" using p by simp
    have "left_snake_left (with_layers d (pre @ (cb, j) # Rs @ (l # seg) @ post))
        (map int (left_idx (Suc (length pre + length Rs)) j (l # seg))) (int (length pre))
        (map int ([Suc (length pre)..<Suc (length pre + length Rs)]
                  @ right_idx (Suc (length pre + length Rs)) j (l # seg)))
      = (ys, Inr (with_layers d (pre @ Ls @ (cb, wire_end j (l # seg)) # Rs'' @ post),
                  int (length pre + length Ls),
                  map int [Suc (length pre + length Ls)..<Suc (length pre + length Ls + length Rs'')]))"
      using run by (simp only: e1 e2 e3 e4)
    moreover have "\<forall>X\<in>set Rs''. wire_end j (l # seg) < snd X"
      using gt p by simp
    moreover have "length Ls + length Rs'' = length Rs + length (l # seg)"
      using len by simp
    moreover have "fst ` set (Ls @ Rs'') = fst ` set (Rs @ l # seg)"
      using bx by simp
    ultimately show ?thesis by blast
  qed
qed

lemma interchange_single:
  "interchange (with_layers d (pre @ (b0, o0) # (b1, o1) # post))
       (int (length pre)) (int (Suc (length pre))) False =
     (if o0 \<ge> o1 + int (length (box_dom b1))
      then Inr (with_layers d (pre @ (b1, o1) # (b0, o0 + width_change b1) # post))
      else if o1 \<ge> o0 + int (length (box_cod b0))
      then Inr (with_layers d (pre @ (b1, o1 - width_change b0) # (b0, o0) # post))
      else Inl InterchangerError)"
proof -
  have "[nat (int (length pre))..<nat (int (Suc (length pre)))] = [length pre]"
    by (simp only: nat_int) simp
  then have "interchange (with_layers d (pre @ (b0, o0) # (b1, o1) # post))
       (int (length pre)) (int (Suc (length pre))) False
     = exchange (with_layers d (pre @ (b0, o0) # (b1, o1) # post)) (length pre) False"
    by (cases "exchange (with_layers d (pre @ (b0, o0) # (b1, o1) # post)) (length pre) False")
       (simp_all add: interchange_eq moncat_interchange_def del: upt_Suc of_nat_Suc)
  then show ?thesis by (simp only: exchange_layers)
qed

lemma left_snake_right_sweep:
  assumes "\<forall>X\<in>set Rs. q + int (length (box_dom cupb)) \<le> snd X"
  shows "\<exists>ys. left_snake_right (with_layers d (pre @ Rs @ (cupb, q) # post))
            (rev (map int [length pre..<length pre + length Rs])) (int (length pre + length Rs))
          = (ys, Inr (with_layers d (pre @ (cupb, q) # map (shift (width_change cupb)) Rs @ post),
                      int (length pre)))"
  using assms
proof (induction Rs arbitrary: post rule: rev_induct)
  case Nil
  show ?case by simp
next
  case (snoc X Ys)
  obtain b off where X: "X = (b, off)" by (cases X)
  have c: "q + int (length (box_dom cupb)) \<le> off" using snoc.prems X by simp
  let ?d = "with_layers d ((pre @ Ys) @ (b, off) # (cupb, q) # post)"
  let ?d' = "with_layers d ((pre @ Ys) @ (cupb, q) # (b, off + width_change cupb) # post)"
  have ic: "interchange ?d (int (length (pre @ Ys))) (int (Suc (length (pre @ Ys)))) False = Inr ?d'"
    using c by (simp only: interchange_single) simp
  from snoc.IH [of "(b, off + width_change cupb) # post"] snoc.prems
  obtain ys where run: "left_snake_right (with_layers d (pre @ Ys @ (cupb, q) # (b, off + width_change cupb) # post))
            (rev (map int [length pre..<length pre + length Ys])) (int (length pre + length Ys))
          = (ys, Inr (with_layers d (pre @ (cupb, q) # map (shift (width_change cupb)) Ys @ (b, off + width_change cupb) # post),
                      int (length pre)))"
    by auto
  have e1: "pre @ (Ys @ [X]) @ (cupb, q) # post = (pre @ Ys) @ (b, off) # (cupb, q) # post"
    by (simp add: X)
  have e2: "rev (map int [length pre..<length pre + length (Ys @ [X])])
      = int (length (pre @ Ys)) # rev (map int [length pre..<length pre + length Ys])"
    by simp
  have e3: "int (length pre + length (Ys @ [X])) = int (Suc (length (pre @ Ys)))" by simp
  have e4: "int (Suc (length (pre @ Ys))) - 1 = int (length pre + length Ys)" by simp
  have e5: "(pre @ Ys) @ (cupb, q) # (b, off + width_change cupb) # post
      = pre @ Ys @ (cupb, q) # (b, off + width_change cupb) # post" by simp
  have e6: "pre @ (cupb, q) # map (shift (width_change cupb)) (Ys @ [X]) @ post
      = pre @ (cupb, q) # map (shift (width_change cupb)) Ys @ (b, off + width_change cupb) # post"
    by (simp add: X)
  show ?case
    apply (rule exI [of _ "?d' # ys"])
    by (simp only: e1 e2 e3 left_snake_right.simps ic sum.case e4 e5 run prod.case e6)
qed

lemma right_snake_right_sweep:
  assumes "\<forall>X\<in>set Rs. \<not> (p \<ge> snd X + int (length (box_dom (fst X))))
                        \<and> snd X \<ge> p + int (length (box_cod cb))"
  shows "\<exists>ys. right_snake_right (with_layers d (pre @ (cb, p) # Rs @ post))
            (map int [Suc (length pre)..<Suc (length pre + length Rs)]) (int (length pre))
          = (ys, Inr (with_layers d (pre @ map (shift (- width_change cb)) Rs @ (cb, p) # post),
                      int (length pre + length Rs)))"
  using assms
proof (induction Rs arbitrary: pre)
  case Nil
  show ?case by simp
next
  case (Cons X Ys)
  obtain b off where X: "X = (b, off)" by (cases X)
  have c1: "\<not> (p \<ge> off + int (length (box_dom b)))" and c2: "off \<ge> p + int (length (box_cod cb))"
    using Cons.prems X by simp_all
  let ?d = "with_layers d (pre @ (cb, p) # (b, off) # Ys @ post)"
  let ?d' = "with_layers d (pre @ (b, off - width_change cb) # (cb, p) # Ys @ post)"
  have "interchange ?d (int (length pre)) (int (Suc (length pre))) False = Inr ?d'"
    using c1 c2 by (simp only: interchange_single) simp
  then have ic: "interchange ?d (int (Suc (length pre))) (int (length pre)) False = Inr ?d'"
    by (simp only: interchange_adjacent)
  from Cons.IH [of "pre @ [(b, off - width_change cb)]"] Cons.prems
  obtain ys where run: "right_snake_right (with_layers d ((pre @ [(b, off - width_change cb)]) @ (cb, p) # Ys @ post))
            (map int [Suc (length (pre @ [(b, off - width_change cb)]))..<Suc (length (pre @ [(b, off - width_change cb)]) + length Ys)])
            (int (length (pre @ [(b, off - width_change cb)])))
          = (ys, Inr (with_layers d ((pre @ [(b, off - width_change cb)]) @ map (shift (- width_change cb)) Ys @ (cb, p) # post),
                      int (length (pre @ [(b, off - width_change cb)]) + length Ys)))"
    by auto
  have e1: "pre @ (cb, p) # (X # Ys) @ post = pre @ (cb, p) # (b, off) # Ys @ post"
    by (simp add: X)
  have e2: "map int [Suc (length pre)..<Suc (length pre + length (X # Ys))]
      = int (Suc (length pre)) # map int [Suc (length (pre @ [(b, off - width_change cb)]))..<Suc (length (pre @ [(b, off - width_change cb)]) + length Ys)]"
    by (subst upt_conv_Cons) simp_all
  have e4: "int (length pre) + 1 = int (length (pre @ [(b, off - width_change cb)]))" by simp
  have e5: "pre @ (b, off - width_change cb) # (cb, p) # Ys @ post
      = (pre @ [(b, off - width_change cb)]) @ (cb, p) # Ys @ post" by simp
  have e6: "pre @ map (shift (- width_change cb)) (X # Ys) @ (cb, p) # post
      = (pre @ [(b, off - width_change cb)]) @ map (shift (- width_change cb)) Ys @ (cb, p) # post"
    by (simp add: X)
  have e7: "int (length pre + length (X # Ys)) = int (length (pre @ [(b, off - width_change cb)]) + length Ys)"
    by simp
  show ?case
    apply (rule exI [of _ "?d' # ys"])
    by (simp only: e1 e2 right_snake_right.simps ic sum.case e4 e5 run prod.case e6 e7)
qed

lemma free_wire_snoc: "free_wire j (seg @ [l]) = (free_wire j seg \<and> \<not> covers (wire_end j seg) l)"
  by (induction seg arbitrary: j) auto

lemma wire_end_snoc: "wire_end j (seg @ [l]) = pass (wire_end j seg) l"
  by (induction seg arbitrary: j) auto

lemma left_idx_snoc:
  "left_idx s j (seg @ [l]) =
     left_idx s j seg @ (if snd l \<le> wire_end j seg then [s + length seg] else [])"
  by (induction seg arbitrary: s j) auto

lemma right_idx_snoc:
  "right_idx s j (seg @ [l]) =
     right_idx s j seg @ (if snd l \<le> wire_end j seg then [] else [s + length seg])"
  by (induction seg arbitrary: s j) auto

lemma drop_above:
  "map (\<lambda>rb. if rb > int s then rb - 1 else rb) (map int [Suc s..<Suc s + n]) = map int [s..<s + n]"
proof -
  have "map (\<lambda>rb. if rb > int s then rb - 1 else rb) (map int [Suc s..<Suc s + n])
      = map (\<lambda>k. int k - 1) [Suc s..<Suc s + n]"
    by (simp add: comp_def)
  also have "\<dots> = map (\<lambda>k. int k - 1) (map Suc [s..<s + n])"
    by (simp only: map_Suc_upt) simp
  also have "\<dots> = map int [s..<s + n]" by (simp add: comp_def)
  finally show ?thesis .
qed

lemma keep_below:
  "\<forall>x\<in>set xs. x < s \<Longrightarrow> map (\<lambda>rb. if rb > int s then rb - 1 else rb) (map int xs) = map int xs"
  by (induction xs) auto

lemma right_snake_left_sweep:
  assumes "free_wire j0 seg" "\<forall>X\<in>set Rs. wire_end j0 seg < snd X" "0 < length (box_dom cupb)"
  shows "\<exists>ys Rs' Ls.
     right_snake_left (with_layers d (pre @ seg @ Rs @ (cupb, wire_end j0 seg) # post))
        (rev (map int (left_idx (length pre) j0 seg)))
        (int (length pre + length seg + length Rs))
        (map int (right_idx (length pre) j0 seg
                  @ [length pre + length seg..<length pre + length seg + length Rs]))
      = (ys, Inr (with_layers d (pre @ Rs' @ (cupb, j0) # Ls @ post),
                  int (length pre + length Rs'),
                  map int [length pre..<length pre + length Rs']))
     \<and> (\<forall>X\<in>set Rs'. j0 < snd X)
     \<and> length Rs' + length Ls = length seg + length Rs
     \<and> fst ` set (Rs' @ Ls) = fst ` set (seg @ Rs)"
  using assms(1,2)
proof (induction seg arbitrary: Rs post rule: rev_induct)
  case Nil
  have "right_snake_left (with_layers d (pre @ [] @ Rs @ (cupb, wire_end j0 []) # post))
        (rev (map int (left_idx (length pre) j0 [])))
        (int (length pre + length ([]::layer list) + length Rs))
        (map int (right_idx (length pre) j0 []
                  @ [length pre + length ([]::layer list)..<length pre + length ([]::layer list) + length Rs]))
      = ([], Inr (with_layers d (pre @ Rs @ (cupb, j0) # [] @ post),
                  int (length pre + length Rs),
                  map int [length pre..<length pre + length Rs]))"
    by simp
  moreover have "\<forall>X\<in>set Rs. j0 < snd X" using Nil by simp
  ultimately show ?case by (metis append_Nil append_Nil2 add.commute)
next
  case (snoc l seg)
  obtain b off where l: "l = (b, off)" by (cases l)
  let ?j = "wire_end j0 seg"
  let ?bi = "length pre + length seg"
  have fw: "free_wire j0 seg" and nc: "\<not> covers ?j l"
    using snoc.prems(1) by (simp_all add: free_wire_snoc)
  show ?case
  proof (cases "off \<le> ?j")
    case True
    let ?dl = "width_change b"
    have q: "wire_end j0 (seg @ [l]) = ?j + ?dl"
      using True l by (simp add: wire_end_snoc pass_def)
    have below: "off + int (length (box_dom b)) \<le> ?j"
      using nc True l by (simp add: covers_def)
    have room: "off + int (length (box_cod b)) \<le> ?j + ?dl"
      using below by (simp add: width_change_def)
    have gtq: "\<forall>X\<in>set Rs. ?j + ?dl < snd X" using snoc.prems(2) q by simp
    have down: "\<forall>X\<in>set (Rs @ [(cupb, ?j + ?dl)]).
          \<not> (off \<ge> snd X + int (length (box_dom (fst X)))) \<and> snd X \<ge> off + int (length (box_cod b))"
    proof
      fix X assume "X \<in> set (Rs @ [(cupb, ?j + ?dl)])"
      then consider "X \<in> set Rs" | "X = (cupb, ?j + ?dl)" by auto
      then show "\<not> (off \<ge> snd X + int (length (box_dom (fst X)))) \<and> snd X \<ge> off + int (length (box_cod b))"
      proof cases
        case 1
        then have "?j + ?dl < snd X" using gtq by blast
        then show ?thesis using room by simp
      next
        case 2
        have pos: "0 < int (length (box_dom cupb))" using assms(3) by simp
        have nn: "0 \<le> int (length (box_cod b))" by simp
        have "\<not> (off \<ge> (?j + ?dl) + int (length (box_dom cupb)))"
          using room pos nn by linarith
        then show ?thesis using room by (simp only: 2 fst_conv snd_conv) simp
      qed
    qed
    let ?d = "with_layers d ((pre @ seg) @ (b, off) # (Rs @ [(cupb, ?j + ?dl)]) @ post)"
    let ?d' = "with_layers d (pre @ seg @ map (shift (- ?dl)) Rs @ (cupb, ?j) # (b, off) # post)"
    have ic: "interchange ?d (int (length (pre @ seg))) (int (length (pre @ seg) + length (Rs @ [(cupb, ?j + ?dl)]))) False = Inr ?d'"
      using interchange_down [OF down, of d "pre @ seg" post] by simp
    have Rs': "\<forall>X\<in>set (map (shift (- ?dl)) Rs). ?j < snd X" using gtq by auto
    from snoc.IH [of "map (shift (- ?dl)) Rs" "(b, off) # post"] fw Rs'
    obtain ys Rs'' Ls where
      run: "right_snake_left ?d'
        (rev (map int (left_idx (length pre) j0 seg)))
        (int (length pre + length seg + length (map (shift (- ?dl)) Rs)))
        (map int (right_idx (length pre) j0 seg
                  @ [length pre + length seg..<length pre + length seg + length (map (shift (- ?dl)) Rs)]))
      = (ys, Inr (with_layers d (pre @ Rs'' @ (cupb, j0) # Ls @ (b, off) # post),
                  int (length pre + length Rs''),
                  map int [length pre..<length pre + length Rs'']))"
      and gt: "\<forall>X\<in>set Rs''. j0 < snd X"
      and len: "length Rs'' + length Ls = length seg + length (map (shift (- ?dl)) Rs)"
      and bx: "fst ` set (Rs'' @ Ls) = fst ` set (seg @ map (shift (- ?dl)) Rs)"
      by blast
    have e1: "pre @ (seg @ [l]) @ Rs @ (cupb, wire_end j0 (seg @ [l])) # post
        = (pre @ seg) @ (b, off) # (Rs @ [(cupb, ?j + ?dl)]) @ post"
      using q l by simp
    have e2: "rev (map int (left_idx (length pre) j0 (seg @ [l])))
        = int (length (pre @ seg)) # rev (map int (left_idx (length pre) j0 seg))"
      using True l by (simp add: left_idx_snoc)
    have e3: "int (length pre + length (seg @ [l]) + length Rs)
        = int (length (pre @ seg) + length (Rs @ [(cupb, ?j + ?dl)]))"
      by simp
    have e4: "right_idx (length pre) j0 (seg @ [l]) @ [length pre + length (seg @ [l])..<length pre + length (seg @ [l]) + length Rs]
        = right_idx (length pre) j0 seg @ [Suc ?bi..<Suc ?bi + length Rs]"
      using True l by (simp add: right_idx_snoc)
    have bump: "map (\<lambda>right_box. if right_box > int (length (pre @ seg)) then right_box - 1 else right_box)
          (map int (right_idx (length pre) j0 seg @ [Suc ?bi..<Suc ?bi + length Rs]))
        = map int (right_idx (length pre) j0 seg
                  @ [length pre + length seg..<length pre + length seg + length (map (shift (- ?dl)) Rs)])"
    proof -
      have "\<forall>x\<in>set (right_idx (length pre) j0 seg). x < ?bi"
        using right_idx_bounds by blast
      from keep_below [OF this] drop_above [of ?bi "length Rs"]
      show ?thesis by (simp del: upt_Suc)
    qed
    have e5: "int (length (pre @ seg) + length (Rs @ [(cupb, ?j + ?dl)])) - 1
        = int (length pre + length seg + length (map (shift (- ?dl)) Rs))"
      by simp
    have lhs: "right_snake_left (with_layers d (pre @ (seg @ [l]) @ Rs @ (cupb, wire_end j0 (seg @ [l])) # post))
        (rev (map int (left_idx (length pre) j0 (seg @ [l]))))
        (int (length pre + length (seg @ [l]) + length Rs))
        (map int (right_idx (length pre) j0 (seg @ [l])
                  @ [length pre + length (seg @ [l])..<length pre + length (seg @ [l]) + length Rs]))
      = (?d' # ys, Inr (with_layers d (pre @ Rs'' @ (cupb, j0) # Ls @ (b, off) # post),
                  int (length pre + length Rs''),
                  map int [length pre..<length pre + length Rs'']))"
      by (simp only: e1 e2 e3 e4 right_snake_left.simps ic sum.case bump e5 run prod.case)
    have e6: "pre @ Rs'' @ (cupb, j0) # Ls @ (b, off) # post
        = pre @ Rs'' @ (cupb, j0) # (Ls @ [l]) @ post"
      using l by simp
    have "right_snake_left (with_layers d (pre @ (seg @ [l]) @ Rs @ (cupb, wire_end j0 (seg @ [l])) # post))
        (rev (map int (left_idx (length pre) j0 (seg @ [l]))))
        (int (length pre + length (seg @ [l]) + length Rs))
        (map int (right_idx (length pre) j0 (seg @ [l])
                  @ [length pre + length (seg @ [l])..<length pre + length (seg @ [l]) + length Rs]))
      = (?d' # ys, Inr (with_layers d (pre @ Rs'' @ (cupb, j0) # (Ls @ [l]) @ post),
                  int (length pre + length Rs''),
                  map int [length pre..<length pre + length Rs'']))"
      using lhs by (simp only: e6)
    moreover have "length Rs'' + length (Ls @ [l]) = length (seg @ [l]) + length Rs"
      using len by simp
    moreover have "fst ` set (Rs'' @ (Ls @ [l])) = fst ` set ((seg @ [l]) @ Rs)"
      using bx by (auto simp add: image_Un image_image)
    ultimately show ?thesis using gt by blast
  next
    case False
    have q: "wire_end j0 (seg @ [l]) = ?j"
      using False l by (simp add: wire_end_snoc pass_def)
    have Rs': "\<forall>X\<in>set (l # Rs). ?j < snd X" using snoc.prems(2) q False l by auto
    from snoc.IH [of "l # Rs" post] fw Rs'
    obtain ys Rs'' Ls where
      run: "right_snake_left (with_layers d (pre @ seg @ (l # Rs) @ (cupb, ?j) # post))
        (rev (map int (left_idx (length pre) j0 seg)))
        (int (length pre + length seg + length (l # Rs)))
        (map int (right_idx (length pre) j0 seg
                  @ [length pre + length seg..<length pre + length seg + length (l # Rs)]))
      = (ys, Inr (with_layers d (pre @ Rs'' @ (cupb, j0) # Ls @ post),
                  int (length pre + length Rs''),
                  map int [length pre..<length pre + length Rs'']))"
      and gt: "\<forall>X\<in>set Rs''. j0 < snd X"
      and len: "length Rs'' + length Ls = length seg + length (l # Rs)"
      and bx: "fst ` set (Rs'' @ Ls) = fst ` set (seg @ (l # Rs))"
      by blast
    have e1: "pre @ (seg @ [l]) @ Rs @ (cupb, wire_end j0 (seg @ [l])) # post
        = pre @ seg @ (l # Rs) @ (cupb, ?j) # post"
      using q by simp
    have e2: "left_idx (length pre) j0 (seg @ [l]) = left_idx (length pre) j0 seg"
      using False l by (simp add: left_idx_snoc)
    have e3: "length pre + length (seg @ [l]) + length Rs = length pre + length seg + length (l # Rs)"
      by simp
    have e4: "right_idx (length pre) j0 (seg @ [l]) @ [length pre + length (seg @ [l])..<length pre + length seg + length (l # Rs)]
        = right_idx (length pre) j0 seg @ [length pre + length seg..<length pre + length seg + length (l # Rs)]"
    proof -
      have u: "[?bi..<?bi + length (l # Rs)] = ?bi # [Suc ?bi..<?bi + length (l # Rs)]"
        by (subst upt_conv_Cons) simp_all
      have r: "right_idx (length pre) j0 (seg @ [l]) = right_idx (length pre) j0 seg @ [?bi]"
        using False l by (simp add: right_idx_snoc)
      have lb: "length pre + length (seg @ [l]) = Suc ?bi" by simp
      show ?thesis
        by (simp only: r lb u append_assoc append_Cons append_Nil)
    qed
    have "right_snake_left (with_layers d (pre @ (seg @ [l]) @ Rs @ (cupb, wire_end j0 (seg @ [l])) # post))
        (rev (map int (left_idx (length pre) j0 (seg @ [l]))))
        (int (length pre + length (seg @ [l]) + length Rs))
        (map int (right_idx (length pre) j0 (seg @ [l])
                  @ [length pre + length (seg @ [l])..<length pre + length (seg @ [l]) + length Rs]))
      = (ys, Inr (with_layers d (pre @ Rs'' @ (cupb, j0) # Ls @ post),
                  int (length pre + length Rs''),
                  map int [length pre..<length pre + length Rs'']))"
      using run by (simp only: e1 e2 e3 e4)
    moreover have "length Rs'' + length Ls = length (seg @ [l]) + length Rs"
      using len by simp
    moreover have "fst ` set (Rs'' @ Ls) = fst ` set ((seg @ [l]) @ Rs)"
      using bx by (auto simp add: image_Un)
    ultimately show ?thesis using gt by blast
  qed
qed

lemma find_move_from_Some:
  "find_move_from d cs = Some m \<Longrightarrow>
     \<exists>cap\<in>set cs. is_Cap (boxes d ! cap) \<and> (\<exists>ls. try_leg d cap ls = Some m)"
proof (induction cs)
  case Nil
  then show ?case by simp
next
  case (Cons cap rest)
  show ?case
  proof (cases "is_Cap (boxes d ! cap)")
    case False
    with Cons show ?thesis by auto
  next
    case True
    show ?thesis
    proof (cases "try_leg d cap True")
      case (Some a)
      with Cons.prems True show ?thesis by auto
    next
      case None
      show ?thesis
      proof (cases "try_leg d cap False")
        case (Some a)
        with Cons.prems True None show ?thesis by auto
      next
        case n2: None
        with Cons True None show ?thesis by auto
      qed
    qed
  qed
qed

lemma try_leg_Some:
  assumes "try_leg d cap ls = Some m"
  shows "\<exists>cup wire L R. m = (cup, cap, (L, R), ls) \<and>
     follow_wire_loop d cap (if ls then offsets d ! cap else offsets d ! cap + 1) [] []
       = (cup, wire, (L, R)) \<and>
     cup \<noteq> length (boxes d) \<and> is_Cup (boxes d ! cup) \<and>
     wire = (if ls then offsets d ! cup + 1 else offsets d ! cup)"
proof -
  obtain cup wire L R where f: "follow_wire d cap (if ls then offsets d ! cap else offsets d ! cap + 1) = (cup, wire, (L, R))"
    by (metis prod_cases4)
  with assms show ?thesis
    by (auto simp: try_leg_def follow_wire_def split: if_splits)
qed

lemma find_move_layers:
  assumes "find_move d = Some (cup, cap, (L, R), ls)" "length (offsets d) = length (boxes d)"
  shows "cap < cup \<and> cup < length (boxes d) \<and> is_Cap (boxes d ! cap) \<and> is_Cup (boxes d ! cup) \<and>
     free_wire (if ls then offsets d ! cap else offsets d ! cap + 1) (between d cap cup) \<and>
     wire_end (if ls then offsets d ! cap else offsets d ! cap + 1) (between d cap cup)
       = (if ls then offsets d ! cup + 1 else offsets d ! cup) \<and>
     L = left_idx (Suc cap) (if ls then offsets d ! cap else offsets d ! cap + 1) (between d cap cup) \<and>
     R = right_idx (Suc cap) (if ls then offsets d ! cap else offsets d ! cap + 1) (between d cap cup)"
proof -
  from find_move_from_Some [OF assms(1) [unfolded find_move_def]]
  obtain cap' ls' where cap': "cap' < length (boxes d)" "is_Cap (boxes d ! cap')"
    and leg: "try_leg d cap' ls' = Some (cup, cap, (L, R), ls)"
    by auto
  from try_leg_Some [OF leg]
  have eq: "cap' = cap" "ls' = ls"
    and fw: "follow_wire_loop d cap (if ls then offsets d ! cap else offsets d ! cap + 1) [] []
       = (cup, (if ls then offsets d ! cup + 1 else offsets d ! cup), (L, R))"
    and cup: "cup \<noteq> length (boxes d)" "is_Cup (boxes d ! cup)"
    by auto
  from follow_wire_loop_layers [OF assms(2) _ fw] cap' eq cup
  show ?thesis by auto
qed

lemma layers_split:
  assumes "length (offsets d) = length (boxes d)" "cap < cup" "cup < length (boxes d)"
  shows "layers d = take cap (layers d) @ (boxes d ! cap, offsets d ! cap) # between d cap cup
           @ (boxes d ! cup, offsets d ! cup) # drop (Suc cup) (layers d)"
proof -
  have len: "length (layers d) = length (boxes d)" using assms(1) by (simp add: layers_def)
  have n: "\<And>i. i < length (boxes d) \<Longrightarrow> layers d ! i = (boxes d ! i, offsets d ! i)"
    using assms(1) by (simp add: layers_def)
  have "layers d = take cap (layers d) @ layers d ! cap # drop (Suc cap) (layers d)"
    using assms len by (simp add: id_take_nth_drop [symmetric])
  moreover have "drop (Suc cap) (layers d) = take (cup - Suc cap) (drop (Suc cap) (layers d))
      @ drop (cup - Suc cap) (drop (Suc cap) (layers d))"
    by (simp only: append_take_drop_id)
  moreover have "drop (cup - Suc cap) (drop (Suc cap) (layers d)) = drop cup (layers d)"
    using assms by simp
  moreover have "drop cup (layers d) = layers d ! cup # drop (Suc cup) (layers d)"
    using assms len by (simp add: Cons_nth_drop_Suc)
  ultimately show ?thesis using n assms by (simp add: between_def)
qed

lemma cut_layers:
  "cut (with_layers d (A @ x # y # B)) (int (Suc (length A))) (int (length A)) = with_layers d (A @ B)"
  by (simp add: cut_def py_take_def py_drop_def with_layers_def nat_add_distrib)

lemma well_formed_with_layers:
  "well_formed (with_layers d ls) = (\<forall>l\<in>set ls. valid_box (fst l))"
  by (simp add: well_formed_def list_all_iff)

lemma valid_Cup: "valid_box b \<Longrightarrow> is_Cup b \<Longrightarrow> length (box_dom b) = 2"
  by (cases b) simp_all

lemma valid_Cap: "valid_box b \<Longrightarrow> is_Cap b \<Longrightarrow> length (box_cod b) = 2"
  by (cases b) simp_all

lemma move_left_snake:
  assumes fw: "free_wire p seg" and we: "wire_end p seg = q + 1"
    and vcup: "length (box_dom cupb) = 2"
    and "length pre = cap" "cup = Suc (cap + length seg)"
  shows "\<exists>ys Ls Rs. move (with_layers d (pre @ (cb, p) # seg @ (cupb, q) # post)) (int cup) (int cap)
           (map int (left_idx (Suc cap) p seg), map int (right_idx (Suc cap) p seg)) True
         = (ys @ [with_layers d (pre @ Ls @ Rs @ post)], None)
         \<and> length Ls + length Rs = length seg \<and> fst ` set (Ls @ Rs) = fst ` set seg"
proof -
  let ?d = "with_layers d (pre @ (cb, p) # seg @ (cupb, q) # post)"
  have none: "\<forall>X\<in>set ([]::layer list). p < snd X" by simp
  from left_snake_left_sweep [OF fw none, of d pre cb "(cupb, q) # post"]
  obtain ys1 Ls Rs' where
    A: "left_snake_left (with_layers d (pre @ (cb, p) # [] @ seg @ (cupb, q) # post))
        (map int (left_idx (Suc (length pre + length ([]::layer list))) p seg)) (int (length pre))
        (map int ([Suc (length pre)..<Suc (length pre + length ([]::layer list))]
                  @ right_idx (Suc (length pre + length ([]::layer list))) p seg))
      = (ys1, Inr (with_layers d (pre @ Ls @ (cb, wire_end p seg) # Rs' @ (cupb, q) # post),
                  int (length pre + length Ls),
                  map int [Suc (length pre + length Ls)..<Suc (length pre + length Ls + length Rs')]))"
    and gt: "\<forall>X\<in>set Rs'. wire_end p seg < snd X"
    and len: "length Ls + length Rs' = length ([]::layer list) + length seg"
    and bx: "fst ` set (Ls @ Rs') = fst ` set ([] @ seg)"
    by blast
  have A': "left_snake_left ?d (map int (left_idx (Suc cap) p seg)) (int cap)
        (map int (right_idx (Suc cap) p seg))
      = (ys1, Inr (with_layers d ((pre @ Ls @ [(cb, q + 1)]) @ Rs' @ (cupb, q) # post),
                  int (cap + length Ls),
                  map int [length (pre @ Ls @ [(cb, q + 1)])..<length (pre @ Ls @ [(cb, q + 1)]) + length Rs']))"
    using A assms(4) we by simp
  have cond: "\<forall>X\<in>set Rs'. q + int (length (box_dom cupb)) \<le> snd X"
    using gt we vcup by auto
  from left_snake_right_sweep [OF cond, of d "pre @ Ls @ [(cb, q + 1)]" post]
  obtain ys2 where
    B: "left_snake_right (with_layers d ((pre @ Ls @ [(cb, q + 1)]) @ Rs' @ (cupb, q) # post))
            (rev (map int [length (pre @ Ls @ [(cb, q + 1)])..<length (pre @ Ls @ [(cb, q + 1)]) + length Rs']))
            (int (length (pre @ Ls @ [(cb, q + 1)]) + length Rs'))
          = (ys2, Inr (with_layers d ((pre @ Ls @ [(cb, q + 1)]) @ (cupb, q) # map (shift (width_change cupb)) Rs' @ post),
                      int (length (pre @ Ls @ [(cb, q + 1)]))))"
    by blast
  have cupi: "int cup = int (length (pre @ Ls @ [(cb, q + 1)]) + length Rs')"
    using assms(4,5) len by simp
  have c: "cut (with_layers d ((pre @ Ls @ [(cb, q + 1)]) @ (cupb, q) # map (shift (width_change cupb)) Rs' @ post))
             (int (length (pre @ Ls @ [(cb, q + 1)]))) (int (cap + length Ls))
        = with_layers d (pre @ Ls @ map (shift (width_change cupb)) Rs' @ post)"
    using cut_layers [of d "pre @ Ls" "(cb, q + 1)" "(cupb, q)" "map (shift (width_change cupb)) Rs' @ post"] assms(4)
    by simp
  have "move ?d (int cup) (int cap)
           (map int (left_idx (Suc cap) p seg), map int (right_idx (Suc cap) p seg)) True
         = (ys1 @ ys2 @ [with_layers d (pre @ Ls @ map (shift (width_change cupb)) Rs' @ post)], None)"
    by (simp only: move_def prod.case if_True A' sum.case rev_map [symmetric] cupi B c)
  then have "move ?d (int cup) (int cap)
           (map int (left_idx (Suc cap) p seg), map int (right_idx (Suc cap) p seg)) True
         = ((ys1 @ ys2) @ [with_layers d (pre @ Ls @ map (shift (width_change cupb)) Rs' @ post)], None)"
    by simp
  moreover have "length Ls + length (map (shift (width_change cupb)) Rs') = length seg"
    using len by simp
  moreover have "fst ` set (Ls @ map (shift (width_change cupb)) Rs') = fst ` set seg"
    using bx by (simp add: image_Un image_image)
  ultimately show ?thesis by blast
qed

lemma move_right_snake:
  assumes fw: "free_wire (p + 1) seg" and we: "wire_end (p + 1) seg = q"
    and vcup: "length (box_dom cupb) = 2" and vcap: "length (box_cod cb) = 2"
    and "length pre = cap" "cup = Suc (cap + length seg)"
  shows "\<exists>ys Ls Rs. move (with_layers d (pre @ (cb, p) # seg @ (cupb, q) # post)) (int cup) (int cap)
           (map int (left_idx (Suc cap) (p + 1) seg), map int (right_idx (Suc cap) (p + 1) seg)) False
         = (ys @ [with_layers d (pre @ Rs @ Ls @ post)], None)
         \<and> length Ls + length Rs = length seg \<and> fst ` set (Ls @ Rs) = fst ` set seg"
proof -
  let ?d = "with_layers d (pre @ (cb, p) # seg @ (cupb, q) # post)"
  let ?pre = "pre @ [(cb, p)]"
  have none: "\<forall>X\<in>set ([]::layer list). wire_end (p + 1) seg < snd X" by simp
  have pos: "0 < length (box_dom cupb)" using vcup by simp
  from right_snake_left_sweep [OF fw none pos, of d ?pre post]
  obtain ys1 Rs' Ls where
    A: "right_snake_left (with_layers d (?pre @ seg @ [] @ (cupb, wire_end (p + 1) seg) # post))
        (rev (map int (left_idx (length ?pre) (p + 1) seg)))
        (int (length ?pre + length seg + length ([]::layer list)))
        (map int (right_idx (length ?pre) (p + 1) seg
                  @ [length ?pre + length seg..<length ?pre + length seg + length ([]::layer list)]))
      = (ys1, Inr (with_layers d (?pre @ Rs' @ (cupb, p + 1) # Ls @ post),
                  int (length ?pre + length Rs'),
                  map int [length ?pre..<length ?pre + length Rs']))"
    and gt: "\<forall>X\<in>set Rs'. p + 1 < snd X"
    and len: "length Rs' + length Ls = length seg + length ([]::layer list)"
    and bx: "fst ` set (Rs' @ Ls) = fst ` set (seg @ [])"
    by blast
  let ?Rs = "map (shift (- width_change cb)) Rs'"
  have A': "right_snake_left ?d (rev (map int (left_idx (Suc cap) (p + 1) seg))) (int cup)
        (map int (right_idx (Suc cap) (p + 1) seg))
      = (ys1, Inr (with_layers d (pre @ (cb, p) # Rs' @ (cupb, p + 1) # Ls @ post),
                  int (Suc (length (pre @ ?Rs))),
                  map int [Suc (length pre)..<Suc (length pre + length Rs')]))"
    using A assms(5,6) we by simp
  have cond: "\<forall>X\<in>set Rs'. \<not> (p \<ge> snd X + int (length (box_dom (fst X))))
                        \<and> snd X \<ge> p + int (length (box_cod cb))"
    using gt vcap by auto
  from right_snake_right_sweep [OF cond, of d pre "(cupb, p + 1) # Ls @ post"]
  obtain ys2 where
    B: "right_snake_right (with_layers d (pre @ (cb, p) # Rs' @ (cupb, p + 1) # Ls @ post))
            (map int [Suc (length pre)..<Suc (length pre + length Rs')]) (int (length pre))
          = (ys2, Inr (with_layers d (pre @ ?Rs @ (cb, p) # (cupb, p + 1) # Ls @ post),
                      int (length pre + length Rs')))"
    by blast
  have capi: "int cap = int (length pre)" using assms(5) by simp
  have c: "cut (with_layers d (pre @ ?Rs @ (cb, p) # (cupb, p + 1) # Ls @ post))
             (int (Suc (length (pre @ ?Rs)))) (int (length pre + length Rs'))
        = with_layers d (pre @ ?Rs @ Ls @ post)"
    using cut_layers [of d "pre @ ?Rs" "(cb, p)" "(cupb, p + 1)" "Ls @ post"]
    by simp
  have "move ?d (int cup) (int cap)
           (map int (left_idx (Suc cap) (p + 1) seg), map int (right_idx (Suc cap) (p + 1) seg)) False
         = (ys1 @ ys2 @ [with_layers d (pre @ ?Rs @ Ls @ post)], None)"
    by (simp only: move_def prod.case if_False A' sum.case capi B c)
  then have "move ?d (int cup) (int cap)
           (map int (left_idx (Suc cap) (p + 1) seg), map int (right_idx (Suc cap) (p + 1) seg)) False
         = ((ys1 @ ys2) @ [with_layers d (pre @ ?Rs @ Ls @ post)], None)"
    by simp
  moreover have "length Ls + length ?Rs = length seg"
    using len by simp
  moreover have "fst ` set (Ls @ ?Rs) = fst ` set seg"
    using bx by (auto simp add: image_Un image_image)
  ultimately show ?thesis by blast
qed

lemma move_well_formed:
  assumes wf: "well_formed d" and fm: "find_move d = Some (cup, cap, (L, R), ls)"
  shows "\<exists>ys d'. move d (int cup) (int cap) (map int L, map int R) ls = (ys @ [d'], None) \<and>
           well_formed d' \<and> Suc (Suc (length (boxes d'))) = length (boxes d)"
proof -
  have len: "length (offsets d) = length (boxes d)" using wf by (simp add: well_formed_def)
  note fl = find_move_layers [OF fm len]
  define pre where "pre = take cap (layers d)"
  define post where "post = drop (Suc cup) (layers d)"
  define seg where "seg = between d cap cup"
  define cb where "cb = boxes d ! cap"
  define p where "p = offsets d ! cap"
  define cupb where "cupb = boxes d ! cup"
  define q where "q = offsets d ! cup"
  have lay: "layers d = pre @ (cb, p) # seg @ (cupb, q) # post"
    using layers_split [OF len, of cap cup] fl
    by (simp add: pre_def post_def seg_def cb_def p_def cupb_def q_def)
  have dd: "with_layers d (pre @ (cb, p) # seg @ (cupb, q) # post) = d"
    using with_layers_layers [OF len] lay by simp
  have lpre: "length pre = cap"
    using fl len by (simp add: pre_def layers_def)
  have lseg: "cup = Suc (cap + length seg)"
  proof -
    have "cap < cup" "cup < length (boxes d)" using fl by simp_all
    then have "min (length (boxes d) - Suc cap) (cup - Suc cap) = cup - Suc cap" by arith
    then show ?thesis using len \<open>cap < cup\<close> by (simp add: seg_def between_def layers_def)
  qed
  have valid: "\<forall>l\<in>set (layers d). valid_box (fst l)"
    using wf by (auto simp: well_formed_def layers_def list_all_iff dest: set_zip_leftD)
  have vcup: "length (box_dom cupb) = 2"
    using valid lay fl by (auto simp: cupb_def intro: valid_Cup)
  have vcap: "length (box_cod cb) = 2"
    using valid lay fl by (auto simp: cb_def intro: valid_Cap)
  have nboxes: "length (boxes d) = Suc (Suc (length pre + length seg + length post))"
    using arg_cong [OF lay, of length] len by (simp add: layers_def)
  have result: "well_formed (with_layers d (pre @ A @ B @ post)) \<and>
        Suc (Suc (length (boxes (with_layers d (pre @ A @ B @ post))))) = length (boxes d)"
    if "length A + length B = length seg" "fst ` set (A @ B) = fst ` set seg" for A B
  proof -
    have "\<forall>l\<in>set (A @ B). valid_box (fst l)"
    proof
      fix l assume "l \<in> set (A @ B)"
      then have "fst l \<in> fst ` set seg" using that(2) by blast
      then obtain l' where "l' \<in> set seg" "fst l' = fst l" by auto
      then show "valid_box (fst l)" using valid lay by (metis Un_iff list.set_intros(2) set_append)
    qed
    then have "\<forall>l\<in>set (pre @ A @ B @ post). valid_box (fst l)"
      using valid lay by auto
    then show ?thesis using that(1) nboxes by (simp add: well_formed_with_layers)
  qed
  show ?thesis
  proof (cases ls)
    case True
    have fw: "free_wire p seg" and we: "wire_end p seg = q + 1"
      and L: "L = left_idx (Suc cap) p seg" and R: "R = right_idx (Suc cap) p seg"
      using fl True by (simp_all add: p_def q_def seg_def)
    from move_left_snake [OF fw we vcup lpre lseg, of d cb post]
    obtain ys Ls Rs where
      m: "move (with_layers d (pre @ (cb, p) # seg @ (cupb, q) # post)) (int cup) (int cap)
           (map int (left_idx (Suc cap) p seg), map int (right_idx (Suc cap) p seg)) True
         = (ys @ [with_layers d (pre @ Ls @ Rs @ post)], None)"
      and l: "length Ls + length Rs = length seg" and b: "fst ` set (Ls @ Rs) = fst ` set seg"
      by blast
    have "move d (int cup) (int cap) (map int L, map int R) ls
         = (ys @ [with_layers d (pre @ Ls @ Rs @ post)], None)"
      using m by (simp only: dd L R True)
    then show ?thesis using result [OF l b] by blast
  next
    case False
    have fw: "free_wire (p + 1) seg" and we: "wire_end (p + 1) seg = q"
      and L: "L = left_idx (Suc cap) (p + 1) seg" and R: "R = right_idx (Suc cap) (p + 1) seg"
      using fl False by (simp_all add: p_def q_def seg_def)
    from move_right_snake [OF fw we vcup vcap lpre lseg, of d post]
    obtain ys Ls Rs where
      m: "move (with_layers d (pre @ (cb, p) # seg @ (cupb, q) # post)) (int cup) (int cap)
           (map int (left_idx (Suc cap) (p + 1) seg), map int (right_idx (Suc cap) (p + 1) seg)) False
         = (ys @ [with_layers d (pre @ Rs @ Ls @ post)], None)"
      and l: "length Ls + length Rs = length seg" and b: "fst ` set (Ls @ Rs) = fst ` set seg"
      by blast
    have l': "length Rs + length Ls = length seg" using l by simp
    have b': "fst ` set (Rs @ Ls) = fst ` set seg" using b by auto
    have "move d (int cup) (int cap) (map int L, map int R) ls
         = (ys @ [with_layers d (pre @ Rs @ Ls @ post)], None)"
      using m by (simp only: dd L R False)
    then show ?thesis using result [OF l' b'] by blast
  qed
qed

lemma remove_snakes_terminates:
  "well_formed d \<Longrightarrow> \<exists>ys d'. remove_snakes d = Some (ys, Inr d') \<and> well_formed d'"
proof (induction "length (boxes d)" arbitrary: d rule: less_induct)
  case less
  show ?case
  proof (cases "find_move d")
    case None
    then have "remove_snakes d = Some ([], Inr d)"
      by (subst remove_snakes.simps) simp
    then show ?thesis using less.prems by blast
  next
    case (Some m)
    obtain cup cap L R ls where m: "m = (cup, cap, (L, R), ls)"
      by (cases m) auto
    from move_well_formed [OF less.prems Some [unfolded m]]
    obtain ys d1 where mv: "move d (int cup) (int cap) (map int L, map int R) ls = (ys @ [d1], None)"
      and wf1: "well_formed d1" and n: "Suc (Suc (length (boxes d1))) = length (boxes d)"
      by blast
    from less.hyps [of d1] wf1 n
    obtain zs d' where rec: "remove_snakes d1 = Some (zs, Inr d')" and wf': "well_formed d'"
      by auto
    have "remove_snakes d = Some ((ys @ [d1]) @ zs, Inr d')"
      by (subst remove_snakes.simps) (simp add: Some m mv rec)
    then show ?thesis using wf' by blast
  qed
qed

subsection \<open>The diagrams of the constructors are well formed\<close>

lemma well_formed_Id [simp]: "well_formed (Id_diagram t)"
  by (simp add: well_formed_def Id_diagram_def)

lemma well_formed_Cup: "Cup x y = Inr c \<Longrightarrow> well_formed (box_diagram c)"
  by (auto simp: Cup_def tensor_ty_def well_formed_def box_diagram_def split: if_splits)

lemma well_formed_Cap: "Cap x y = Inr c \<Longrightarrow> well_formed (box_diagram c)"
  by (auto simp: Cap_def tensor_ty_def well_formed_def box_diagram_def split: if_splits)

lemma well_formed_Box [simp]: "well_formed (box_diagram (Box n dm cd dt dg))"
  by (simp add: well_formed_def box_diagram_def)

lemma well_formed_tensor: "well_formed f \<Longrightarrow> well_formed g \<Longrightarrow> well_formed (tensor f g)"
  by (simp add: well_formed_def tensor_def)

lemma well_formed_then:
  "well_formed f \<Longrightarrow> well_formed g \<Longrightarrow> then_diagram f g = Inr h \<Longrightarrow> well_formed h"
  by (auto simp: well_formed_def then_diagram_def split: if_splits)

lemma well_formed_double_snake: "well_formed (double_snake x y)"
  by (simp add: well_formed_def double_snake_def)

lemma well_formed_cups_layer: "cups_layer x y i = Inr l \<Longrightarrow> well_formed l"
  by (cases "Cup (slice x (length x - i - 1) (length x - i - 1 + 1)) (slice y i (i + 1))")
     (auto simp: cups_layer_def Let_def intro!: well_formed_tensor dest: well_formed_Cup)

lemma well_formed_caps_layer: "caps_layer x y i = Inr l \<Longrightarrow> well_formed l"
  by (cases "Cap (slice x (length x - i - 1) (length x - i - 1 + 1)) (slice y i (i + 1))")
     (auto simp: caps_layer_def Let_def intro!: well_formed_tensor dest: well_formed_Cap)

lemma well_formed_cups_loop:
  "well_formed acc \<Longrightarrow> cups_loop x y is acc = Inr d \<Longrightarrow> well_formed d"
proof (induction "is" arbitrary: acc)
  case Nil
  then show ?case by simp
next
  case (Cons i rest)
  from Cons.prems(2) obtain l acc' where l: "cups_layer x y i = Inr l"
    and a: "then_diagram acc l = Inr acc'" and r: "cups_loop x y rest acc' = Inr d"
    by (cases "cups_layer x y i"; cases "then_diagram acc (projr (cups_layer x y i))") auto
  have "well_formed acc'"
    using well_formed_then [OF Cons.prems(1) well_formed_cups_layer [OF l] a] .
  then show ?case using Cons.IH r by blast
qed

lemma well_formed_caps_loop:
  "well_formed acc \<Longrightarrow> caps_loop x y is acc = Inr d \<Longrightarrow> well_formed d"
proof (induction "is" arbitrary: acc)
  case Nil
  then show ?case by simp
next
  case (Cons i rest)
  from Cons.prems(2) obtain l acc' where l: "caps_layer x y i = Inr l"
    and a: "then_diagram l acc = Inr acc'" and r: "caps_loop x y rest acc' = Inr d"
    by (cases "caps_layer x y i"; cases "then_diagram (projr (caps_layer x y i)) acc") auto
  have "well_formed acc'"
    using well_formed_then [OF well_formed_caps_layer [OF l] Cons.prems(1) a] .
  then show ?case using Cons.IH r by blast
qed

lemma well_formed_cups: "cups x y = Inr d \<Longrightarrow> well_formed d"
  unfolding cups_def by (rule well_formed_cups_loop [OF well_formed_Id])

lemma well_formed_caps: "caps x y = Inr d \<Longrightarrow> well_formed d"
  unfolding caps_def by (rule well_formed_caps_loop [OF well_formed_Id])

section \<open>The normaliser of the monoidal layer creates no snake\<close>

text \<open>
  \<open>find_move\<close> returns \<open>None\<close> exactly when the layers of the diagram have no yankable
  pair.
\<close>

lemma yank_free: "free_wire j seg \<Longrightarrow> \<not> yank ls j seg"
  by (induction seg arbitrary: j) simp_all

lemma yank_append:
  "free_wire j seg \<Longrightarrow> yank ls j (seg @ rest) = yank ls (wire_end j seg) rest"
  by (induction seg arbitrary: j) simp_all

lemma drop_layers_between:
  assumes "length (offsets d) = length (boxes d)" "i < u" "u \<le> length (boxes d)"
  shows "drop (Suc i) (layers d) = between d i u @ drop u (layers d)"
proof -
  have "drop (Suc i) (layers d) = take (u - Suc i) (drop (Suc i) (layers d))
      @ drop (u - Suc i) (drop (Suc i) (layers d))"
    by (simp only: append_take_drop_id)
  moreover have "drop (u - Suc i) (drop (Suc i) (layers d)) = drop u (layers d)"
    using assms by simp
  ultimately show ?thesis by (simp add: between_def)
qed

lemma try_leg_None_iff:
  assumes "length (offsets d) = length (boxes d)" "cap < length (boxes d)"
  shows "(try_leg d cap ls = None) =
     (\<not> yank ls (if ls then offsets d ! cap else offsets d ! cap + 1) (drop (Suc cap) (layers d)))"
proof -
  let ?j = "if ls then offsets d ! cap else offsets d ! cap + 1"
  obtain u ju L R where f: "follow_wire_loop d cap ?j [] [] = (u, ju, (L, R))"
    by (metis prod_cases4)
  from follow_wire_loop_layers [OF assms f]
  have u: "cap < u" "u \<le> length (boxes d)" and fw: "free_wire ?j (between d cap u)"
    and ju: "ju = wire_end ?j (between d cap u)"
    and cov: "u < length (boxes d) \<longrightarrow> covers ju (boxes d ! u, offsets d ! u)"
    by blast+
  have y: "yank ls ?j (drop (Suc cap) (layers d)) = yank ls ju (drop u (layers d))"
    by (simp only: drop_layers_between [OF assms(1) u] yank_append [OF fw] ju)
  have t: "(try_leg d cap ls = None) =
      (u = length (boxes d) \<or> \<not> is_Cup (boxes d ! u)
        \<or> (ls \<and> offsets d ! u + 1 \<noteq> ju) \<or> (\<not> ls \<and> offsets d ! u \<noteq> ju))"
    using f by (simp add: try_leg_def follow_wire_def)
  show ?thesis
  proof (cases "u = length (boxes d)")
    case True
    then have "drop u (layers d) = []" using assms(1) by (simp add: layers_def)
    then show ?thesis using t True by (simp only: y) simp
  next
    case False
    then have lt: "u < length (boxes d)" using u by simp
    have "length (layers d) = length (boxes d)" using assms(1) by (simp add: layers_def)
    then have "drop u (layers d) = layers d ! u # drop (Suc u) (layers d)"
      using Cons_nth_drop_Suc [of u "layers d"] lt by simp
    moreover have "layers d ! u = (boxes d ! u, offsets d ! u)"
      using assms(1) lt by (simp add: layers_def)
    ultimately have "drop u (layers d) = (boxes d ! u, offsets d ! u) # drop (Suc u) (layers d)"
      by simp
    then show ?thesis using t False cov lt by (simp only: y) auto
  qed
qed

lemma find_move_from_None_iff:
  "(find_move_from d cs = None) =
     (\<forall>cap\<in>set cs. is_Cap (boxes d ! cap) \<longrightarrow>
        try_leg d cap True = None \<and> try_leg d cap False = None)"
  by (induction cs) (auto split: option.splits)

lemma snake_free_nth:
  "snake_free ks =
     (\<forall>i<length ks. is_Cap (fst (ks ! i)) \<longrightarrow>
        \<not> yank True (snd (ks ! i)) (drop (Suc i) ks) \<and>
        \<not> yank False (snd (ks ! i) + 1) (drop (Suc i) ks))"
proof (induction ks)
  case Nil
  then show ?case by simp
next
  case (Cons l ks)
  have "(\<forall>i<length (l # ks). is_Cap (fst ((l # ks) ! i)) \<longrightarrow>
        \<not> yank True (snd ((l # ks) ! i)) (drop (Suc i) (l # ks)) \<and>
        \<not> yank False (snd ((l # ks) ! i) + 1) (drop (Suc i) (l # ks))) =
     ((is_Cap (fst l) \<longrightarrow> \<not> yank True (snd l) ks \<and> \<not> yank False (snd l + 1) ks) \<and>
      (\<forall>i<length ks. is_Cap (fst (ks ! i)) \<longrightarrow>
        \<not> yank True (snd (ks ! i)) (drop (Suc i) ks) \<and>
        \<not> yank False (snd (ks ! i) + 1) (drop (Suc i) ks)))"
    by (simp add: All_less_Suc2)
  then show ?case using Cons by simp
qed

lemma find_move_None_iff:
  assumes "length (offsets d) = length (boxes d)"
  shows "(find_move d = None) = snake_free (layers d)"
proof -
  have n: "\<And>i. i < length (boxes d) \<Longrightarrow> layers d ! i = (boxes d ! i, offsets d ! i)"
    using assms by (simp add: layers_def)
  have len: "length (layers d) = length (boxes d)" using assms by (simp add: layers_def)
  show ?thesis
    unfolding find_move_def find_move_from_None_iff snake_free_nth [of "layers d"] len
    using try_leg_None_iff [OF assms, of _ True] try_leg_None_iff [OF assms, of _ False] n
    by auto
qed

text \<open>
  The exchange of two adjacent layers with disjoint footprints changes no wire ending:
  what \<open>find_move\<close> looks for is there after the exchange exactly when it was there
  before.
\<close>

lemma yank_swap_right:
  assumes "o0 \<ge> o1 + int (length (box_dom b1))"
  shows "yank ls j ((b1, o1) # (b0, o0 + width_change b1) # post) =
         yank ls j ((b0, o0) # (b1, o1) # post)"
  using assms by (auto simp: covers_def pass_def width_change_def algebra_simps)

lemma yank_swap_left:
  assumes "o1 \<ge> o0 + int (length (box_cod b0))"
  shows "yank ls j ((b1, o1 - width_change b0) # (b0, o0) # post) =
         yank ls j ((b0, o0) # (b1, o1) # post)"
  using assms by (auto simp: covers_def pass_def width_change_def algebra_simps)

lemma yank_prefix:
  "(\<And>j. yank ls j A = yank ls j B) \<Longrightarrow> yank ls j (pre @ A) = yank ls j (pre @ B)"
  by (induction pre arbitrary: j) simp_all

lemma snake_free_prefix:
  assumes "\<And>ls j. yank ls j A = yank ls j B" "snake_free A = snake_free B"
  shows "snake_free (pre @ A) = snake_free (pre @ B)"
  using assms(2) yank_prefix [of _ A B, OF assms(1)]
  by (induction pre) simp_all

lemma cap_widths: "is_Cap b \<Longrightarrow> valid_box b \<Longrightarrow> box_dom b = [] \<and> length (box_cod b) = 2"
  by (cases b) simp_all

lemma snake_free_swap_right:
  assumes "o0 \<ge> o1 + int (length (box_dom b1))" "valid_box b0" "valid_box b1"
  shows "snake_free ((b1, o1) # (b0, o0 + width_change b1) # post) =
         snake_free ((b0, o0) # (b1, o1) # post)"
  using assms cap_widths [of b0] cap_widths [of b1]
  by (auto simp: covers_def pass_def width_change_def algebra_simps)

lemma snake_free_swap_left:
  assumes "o1 \<ge> o0 + int (length (box_cod b0))" "valid_box b0" "valid_box b1"
  shows "snake_free ((b1, o1 - width_change b0) # (b0, o0) # post) =
         snake_free ((b0, o0) # (b1, o1) # post)"
  using assms cap_widths [of b0] cap_widths [of b1]
  by (auto simp: covers_def pass_def width_change_def algebra_simps)

lemma exchange_layers_left:
  "exchange (with_layers d (pre @ (b0, o0) # (b1, o1) # post)) (length pre) True =
     (if o1 \<ge> o0 + int (length (box_cod b0))
      then Inr (with_layers d (pre @ (b1, o1 - width_change b0) # (b0, o0) # post))
      else if o0 \<ge> o1 + int (length (box_dom b1))
      then Inr (with_layers d (pre @ (b1, o1) # (b0, o0 + width_change b1) # post))
      else Inl InterchangerError)"
  by (simp add: exchange_def Let_def with_layers_def nth_append width_change_def)

lemma layers_with_layers [simp]: "layers (with_layers d ks) = ks"
  by (simp add: layers_def zip_map_fst_snd)

lemma interchange_next:
  "Suc i < length (boxes d) \<Longrightarrow> interchange d (int i) (int i + 1) left = exchange d i left"
proof -
  assume a: "Suc i < length (boxes d)"
  have "[nat (int i)..<nat (int i + 1)] = [i]" by (simp add: nat_add_distrib)
  then show ?thesis
    using a by (simp add: interchange_eq moncat_interchange_def try_then_def split: sum.splits)
qed

lemma layers_pair:
  assumes "length (offsets d) = length (boxes d)" "Suc i < length (boxes d)"
  shows "layers d = take i (layers d) @ (boxes d ! i, offsets d ! i)
           # (boxes d ! Suc i, offsets d ! Suc i) # drop (Suc (Suc i)) (layers d)"
proof -
  have len: "length (layers d) = length (boxes d)" using assms(1) by (simp add: layers_def)
  have n: "\<And>k. k < length (boxes d) \<Longrightarrow> layers d ! k = (boxes d ! k, offsets d ! k)"
    using assms(1) by (simp add: layers_def)
  have "layers d = take i (layers d) @ layers d ! i # drop (Suc i) (layers d)"
    using assms len by (simp add: id_take_nth_drop [symmetric])
  moreover have "drop (Suc i) (layers d) = layers d ! Suc i # drop (Suc (Suc i)) (layers d)"
    using Cons_nth_drop_Suc [of "Suc i" "layers d"] assms len by simp
  ultimately show ?thesis using n assms by simp
qed

lemma exchange_step:
  assumes wf: "well_formed d" and i: "Suc i < length (boxes d)" and ex: "exchangeable d i left"
  shows "\<exists>d'. interchange d (int i) (int i + 1) left = Inr d' \<and> well_formed d' \<and>
           length (boxes d') = length (boxes d) \<and>
           snake_free (layers d') = snake_free (layers d)"
proof -
  let ?pre = "take i (layers d)" and ?post = "drop (Suc (Suc i)) (layers d)"
  let ?b0 = "boxes d ! i" and ?o0 = "offsets d ! i"
  let ?b1 = "boxes d ! Suc i" and ?o1 = "offsets d ! Suc i"
  have len: "length (offsets d) = length (boxes d)" using wf by (simp add: well_formed_def)
  have ll: "length (layers d) = length (boxes d)" using len by (simp add: layers_def)
  have lp: "length ?pre = i" using i ll by simp
  have ls: "layers d = ?pre @ (?b0, ?o0) # (?b1, ?o1) # ?post"
    by (rule layers_pair [OF len i])
  have d: "d = with_layers d (?pre @ (?b0, ?o0) # (?b1, ?o1) # ?post)"
    using with_layers_layers [OF len] ls by simp
  have v: "\<forall>l\<in>set (layers d). valid_box (fst l)"
    using wf well_formed_with_layers [of d "layers d"] with_layers_layers [OF len] by simp
  have v0: "valid_box ?b0" and v1: "valid_box ?b1"
    using wf i by (simp_all add: well_formed_def list_all_length)
  have vv: "\<forall>l\<in>set ?pre \<union> set ?post. valid_box (fst l)"
    using v by (auto dest: in_set_takeD in_set_dropD)
  show ?thesis
  proof (cases left)
    case True
    then have c: "?o1 \<ge> ?o0 + int (length (box_cod ?b0))"
      using ex by (simp add: exchangeable_def Let_def)
    let ?ks = "?pre @ (?b1, ?o1 - width_change ?b0) # (?b0, ?o0) # ?post"
    have "exchange (with_layers d (?pre @ (?b0, ?o0) # (?b1, ?o1) # ?post)) (length ?pre) True
        = Inr (with_layers d ?ks)"
      using c by (simp only: exchange_layers_left if_True)
    then have e: "interchange d (int i) (int i + 1) left = Inr (with_layers d ?ks)"
      using True d lp interchange_next [OF i, of left] by simp
    have s: "snake_free ?ks = snake_free (layers d)"
      using snake_free_prefix [of "(?b1, ?o1 - width_change ?b0) # (?b0, ?o0) # ?post"
          "(?b0, ?o0) # (?b1, ?o1) # ?post" ?pre]
        yank_swap_left [OF c] snake_free_swap_left [OF c v0 v1] ls
      by simp
    have w: "well_formed (with_layers d ?ks)"
      using vv v0 v1 by (auto simp add: well_formed_with_layers)
    have l: "length (boxes (with_layers d ?ks)) = length (boxes d)"
      using i lp ll by simp
    show ?thesis using e s w l by simp
  next
    case False
    then have c: "?o0 \<ge> ?o1 + int (length (box_dom ?b1))"
      using ex by (simp add: exchangeable_def Let_def)
    let ?ks = "?pre @ (?b1, ?o1) # (?b0, ?o0 + width_change ?b1) # ?post"
    have "exchange (with_layers d (?pre @ (?b0, ?o0) # (?b1, ?o1) # ?post)) (length ?pre) False
        = Inr (with_layers d ?ks)"
      using c by (simp only: exchange_layers if_True)
    then have e: "interchange d (int i) (int i + 1) left = Inr (with_layers d ?ks)"
      using False d lp interchange_next [OF i, of left] by simp
    have s: "snake_free ?ks = snake_free (layers d)"
      using snake_free_prefix [of "(?b1, ?o1) # (?b0, ?o0 + width_change ?b1) # ?post"
          "(?b0, ?o0) # (?b1, ?o1) # ?post" ?pre]
        yank_swap_right [OF c] snake_free_swap_right [OF c v0 v1] ls
      by simp
    have w: "well_formed (with_layers d ?ks)"
      using vv v0 v1 by (auto simp add: well_formed_with_layers)
    have l: "length (boxes (with_layers d ?ks)) = length (boxes d)"
      using i lp ll by simp
    show ?thesis using e s w l by simp
  qed
qed

text \<open>
  A pass of the normaliser of the monoidal layer raises nothing and keeps a
  well-formed diagram without yankable pair so; so does a run that ends.
\<close>

lemma moncat_pass_keeps:
  assumes "well_formed d" "snake_free (layers d)" "\<forall>i\<in>set ks. Suc i < length (boxes d)"
    "moncat_pass d left ks = (ys, r)"
  shows "(\<forall>y\<in>set ys. well_formed y \<and> snake_free (layers y)) \<and>
         (\<exists>d'. r = Inr d' \<and> d' = last (d # ys) \<and> well_formed d' \<and> snake_free (layers d'))"
  using assms
proof (induction ks arbitrary: d ys r)
  case Nil
  then show ?case by auto
next
  case (Cons i rest)
  show ?case
  proof (cases "exchangeable d i left")
    case False
    then have "moncat_pass d left rest = (ys, r)" using Cons.prems(4) by simp
    from Cons.IH [OF Cons.prems(1,2) _ this] Cons.prems(3) show ?thesis by simp
  next
    case True
    have i: "Suc i < length (boxes d)" using Cons.prems(3) by simp
    from exchange_step [OF Cons.prems(1) i True]
    obtain d1 where e: "interchange d (int i) (int i + 1) left = Inr d1"
      and w: "well_formed d1" and l: "length (boxes d1) = length (boxes d)"
      and s: "snake_free (layers d1) = snake_free (layers d)"
      by blast
    obtain ys1 r1 where p: "moncat_pass d1 left rest = (ys1, r1)"
      by (cases "moncat_pass d1 left rest")
    have res: "ys = d1 # ys1" "r = r1"
      using Cons.prems(4) True e p by simp_all
    have b: "\<forall>i\<in>set rest. Suc i < length (boxes d1)" using Cons.prems(3) l by simp
    have s1: "snake_free (layers d1)" using s Cons.prems(2) by simp
    from Cons.IH [OF w s1 b p] w s1 res show ?thesis by simp
  qed
qed

lemma moncat_normalize_keeps:
  assumes "moncat_normalize d left = Some r" "well_formed d" "find_move d = None"
  shows "snd r = None \<and> (\<forall>z\<in>set (fst r). well_formed z \<and> find_move z = None)"
proof -
  have "well_formed d \<and> snake_free (layers d) \<longrightarrow>
         snd r = None \<and> (\<forall>z\<in>set (fst r). well_formed z \<and> snake_free (layers z))"
  proof (rule moncat_normalize.raw_induct
      [where P = "\<lambda>d left r. well_formed d \<and> snake_free (layers d) \<longrightarrow>
         snd r = None \<and> (\<forall>z\<in>set (fst r). well_formed z \<and> snake_free (layers z))", OF _ assms(1)])
    fix f d left r
    assume IH: "\<And>d left r. f d left = Some r \<Longrightarrow> well_formed d \<and> snake_free (layers d) \<longrightarrow>
         snd r = None \<and> (\<forall>z\<in>set (fst r). well_formed z \<and> snake_free (layers z))"
      and step: "(case moncat_pass d left [0..<length (boxes d) - 1] of
          (ys, Inl e) \<Rightarrow> Some (ys, Some e)
        | (ys, Inr d') \<Rightarrow>
            if ys = [] then Some ([], None)
            else Option.bind (f d' left) (\<lambda>(zs, st). Some (ys @ zs, st))) = Some r"
    show "well_formed d \<and> snake_free (layers d) \<longrightarrow>
         snd r = None \<and> (\<forall>z\<in>set (fst r). well_formed z \<and> snake_free (layers z))"
    proof
      assume a: "well_formed d \<and> snake_free (layers d)"
      obtain ys r1 where p: "moncat_pass d left [0..<length (boxes d) - 1] = (ys, r1)"
        by (cases "moncat_pass d left [0..<length (boxes d) - 1]")
      have b: "\<forall>i\<in>set [0..<length (boxes d) - 1]. Suc i < length (boxes d)" by auto
      from moncat_pass_keeps [OF _ _ b p] a
      obtain d' where ys: "\<forall>y\<in>set ys. well_formed y \<and> snake_free (layers y)"
        and r1: "r1 = Inr d'" and d': "well_formed d'" "snake_free (layers d')"
        by blast
      show "snd r = None \<and> (\<forall>z\<in>set (fst r). well_formed z \<and> snake_free (layers z))"
      proof (cases "ys = []")
        case True
        then show ?thesis using step by (simp only: p r1) auto
      next
        case False
        from step obtain r' where f: "f d' left = Some r'" and r: "r = (ys @ fst r', snd r')"
          using False by (simp only: p r1) (auto simp: bind_eq_Some_conv)
        from IH [OF f] d' ys show ?thesis by (auto simp: r)
      qed
    qed
  qed
  moreover have "\<And>z. well_formed z \<Longrightarrow> (find_move z = None) = snake_free (layers z)"
    by (rule find_move_None_iff) (simp add: well_formed_def)
  ultimately show ?thesis using assms(2,3) by auto
qed


text \<open>The diagrams the normaliser of the monoidal layer yields have the ends of its input.\<close>

lemma moncat_normalize_no_boxes: "boxes d = [] \<Longrightarrow> moncat_normalize d left = Some ([], None)"
  by (subst moncat_normalize.simps) simp

lemma moncat_pass_same_ends:
  "moncat_pass d left ks = (ys, r) \<Longrightarrow>
     (\<forall>y\<in>set ys. same_ends d y) \<and> (\<forall>d'. r = Inr d' \<longrightarrow> same_ends d d')"
proof (induction ks arbitrary: d ys r)
  case Nil
  then show ?case by auto
next
  case (Cons i rest)
  show ?case
  proof (cases "exchangeable d i left")
    case False
    then show ?thesis using Cons by simp
  next
    case True
    show ?thesis
    proof (cases "interchange d (int i) (int i + 1) left")
      case (Inl e)
      then show ?thesis using Cons.prems True by auto
    next
      case (Inr d1)
      obtain ys1 r1 where p: "moncat_pass d1 left rest = (ys1, r1)"
        by (cases "moncat_pass d1 left rest")
      have s: "same_ends d d1" by (rule interchange_same_ends [OF Inr])
      have res: "ys = d1 # ys1" "r = r1" using Cons.prems True Inr p by simp_all
      from Cons.IH [OF p] s res show ?thesis
        by (auto intro: same_ends_trans)
    qed
  qed
qed

lemma moncat_rounds_same_ends: "\<forall>y\<in>set (moncat_rounds n d left). same_ends d y"
proof (induction n arbitrary: d)
  case 0
  then show ?case by simp
next
  case (Suc n)
  obtain ys r where p: "moncat_pass d left [0..<length (boxes d) - 1] = (ys, r)"
    by (cases "moncat_pass d left [0..<length (boxes d) - 1]")
  from moncat_pass_same_ends [OF p]
  have ys: "\<forall>y\<in>set ys. same_ends d y" and r: "\<forall>d'. r = Inr d' \<longrightarrow> same_ends d d'"
    by simp_all
  show ?case
  proof (cases r)
    case (Inl e)
    then show ?thesis using ys by (simp only: moncat_rounds.simps p) simp
  next
    case (Inr d')
    then have "same_ends d d'" using r by simp
    then have "\<forall>y\<in>set (moncat_rounds n d' left). same_ends d y"
      using Suc [of d'] by (auto intro: same_ends_trans)
    then show ?thesis using ys Inr by (simp only: moncat_rounds.simps p) auto
  qed
qed

lemma never_ending_yields:
  "moncat_normalize d left = None \<Longrightarrow> n \<le> length (moncat_rounds n d left)"
proof (induction n arbitrary: d)
  case 0
  then show ?case by simp
next
  case (Suc n)
  obtain ys r where p: "moncat_pass d left [0..<length (boxes d) - 1] = (ys, r)"
    by (cases "moncat_pass d left [0..<length (boxes d) - 1]")
  have u: "moncat_normalize d left =
     (case (ys, r) of
        (ys, Inl e) \<Rightarrow> Some (ys, Some e)
      | (ys, Inr d') \<Rightarrow>
          if ys = [] then Some ([], None)
          else Option.bind (moncat_normalize d' left) (\<lambda>(zs, st). Some (ys @ zs, st)))"
    by (subst moncat_normalize.simps) (simp only: p)
  show ?case
  proof (cases r)
    case (Inl e)
    then show ?thesis using Suc.prems u by simp
  next
    case (Inr d')
    then have ne: "ys \<noteq> []" and rec: "moncat_normalize d' left = None"
      using Suc.prems u by (auto split: if_splits prod.splits simp: bind_eq_None_conv)
    have "moncat_rounds (Suc n) d left = ys @ moncat_rounds n d' left"
      using ne Inr by (simp only: moncat_rounds.simps p) simp
    moreover have "1 \<le> length ys" using ne by (cases ys) simp_all
    ultimately show ?thesis using Suc.IH [OF rec] by simp
  qed
qed

text \<open>
  On two boxes without wires every pass exchanges the two: the run never ends, and
  the first \<open>n\<close> passes yield \<open>n\<close> diagrams.
\<close>

lemma two_scalars_eq: "two_scalars = scalars ''s0'' ''s1''"
  by (simp add: two_scalars_def scalars_def tensor_def box_diagram_def scalar_def tensor_ty_def)

lemma moncat_pass_scalars:
  "moncat_pass (scalars a b) False [0..<length (boxes (scalars a b)) - 1] =
     ([scalars b a], Inr (scalars b a))"
  by (simp add: scalars_def scalar_def exchangeable_def interchange_def moncat_interchange_def
      exchange_def)

lemma moncat_normalize_scalars: "moncat_normalize (scalars a b) False = None"
proof (cases "moncat_normalize (scalars a b) False")
  case None
  then show ?thesis .
next
  case (Some r)
  have "False \<or> (\<forall>a' b'. scalars a b \<noteq> scalars a' b')"
  proof (rule moncat_normalize.raw_induct
      [where P = "\<lambda>d left r. left \<or> (\<forall>a b. d \<noteq> scalars a b)", OF _ Some])
    fix f d left r
    assume IH: "\<And>d left r. f d left = Some r \<Longrightarrow> left \<or> (\<forall>a b. d \<noteq> scalars a b)"
      and step: "(case moncat_pass d left [0..<length (boxes d) - 1] of
          (ys, Inl e) \<Rightarrow> Some (ys, Some e)
        | (ys, Inr d') \<Rightarrow>
            if ys = [] then Some ([], None)
            else Option.bind (f d' left) (\<lambda>(zs, st). Some (ys @ zs, st))) = Some r"
    show "left \<or> (\<forall>a b. d \<noteq> scalars a b)"
    proof (rule ccontr)
      assume "\<not> (left \<or> (\<forall>a b. d \<noteq> scalars a b))"
      then obtain a b where l: "\<not> left" and d: "d = scalars a b" by blast
      have p: "moncat_pass d left [0..<length (boxes d) - 1] = ([scalars b a], Inr (scalars b a))"
        using l moncat_pass_scalars [of a b] by (simp only: d)
      from step obtain r' where "f (scalars b a) left = Some r'"
        by (simp only: p) (auto simp: bind_eq_Some_conv)
      from IH [OF this] l show False by blast
    qed
  qed
  then show ?thesis by blast
qed

lemma moncat_rounds_scalars: "length (moncat_rounds n (scalars a b) False) = n"
proof (induction n arbitrary: a b)
  case 0
  then show ?case by simp
next
  case (Suc n)
  have "moncat_rounds (Suc n) (scalars a b) False = scalars b a # moncat_rounds n (scalars b a) False"
    by (simp only: moncat_rounds.simps moncat_pass_scalars) simp
  then show ?case using Suc by simp
qed

lemma well_formed_two_scalars: "well_formed two_scalars"
  by (simp add: two_scalars_eq scalars_def scalar_def well_formed_def)

lemma find_move_scalars: "find_move (scalars a b) = None"
  by (simp add: find_move_def scalars_def scalar_def upt_rec)

lemma remove_snakes_scalars: "remove_snakes (scalars a b) = Some ([], Inr (scalars a b))"
  by (subst remove_snakes.simps) (simp add: find_move_scalars)

lemma two_scalars_run: "normalize moncat_normalize two_scalars False = None"
  by (simp add: normalize_def two_scalars_eq remove_snakes_scalars moncat_normalize_scalars)

lemma two_scalars_rounds:
  "moncat_rounds 3 two_scalars False =
     [scalars ''s1'' ''s0'', scalars ''s0'' ''s1'', scalars ''s1'' ''s0'']"
  by (simp add: numeral_3_eq_3 two_scalars_eq moncat_pass_scalars del: upt_Suc One_nat_def)

text \<open>The snake beside the two boxes \<open>f\<close> and \<open>g\<close>: one move, then one exchange.\<close>

lemma well_formed_crossing_snake: "well_formed crossing_snake"
  by (simp add: crossing_snake_def crossing_def box_f_def box_g_def well_formed_def)

lemma find_move_crossing_snake: "find_move crossing_snake = Some (3, 2, ([], []), False)"
  by (simp add: crossing_snake_def crossing_def box_f_def box_g_def find_move_def upt_rec
      try_leg_def follow_wire_def follow_wire_loop.simps)

lemma move_crossing_snake:
  "move crossing_snake 3 2 ([], []) False = ([crossing [1, 0] [box_f, box_g]], None)"
  by (simp add: move_def cut_def py_take_def py_drop_def crossing_snake_def crossing_def)

lemma find_move_crossing: "find_move (crossing offs [box_f, box_g]) = None"
  by (simp add: crossing_def box_f_def box_g_def find_move_def upt_rec)

lemma find_move_crossed: "find_move (crossing offs [box_g, box_f]) = None"
  by (simp add: crossing_def box_f_def box_g_def find_move_def upt_rec)

lemma remove_snakes_crossing_snake:
  "remove_snakes crossing_snake =
     Some ([crossing [1, 0] [box_f, box_g]], Inr (crossing [1, 0] [box_f, box_g]))"
proof -
  have "remove_snakes (crossing [1, 0] [box_f, box_g]) =
      Some ([], Inr (crossing [1, 0] [box_f, box_g]))"
    by (subst remove_snakes.simps) (simp add: find_move_crossing)
  then show ?thesis
    by (subst remove_snakes.simps) (simp add: find_move_crossing_snake move_crossing_snake)
qed

lemma moncat_normalize_crossing:
  "moncat_normalize (crossing [1, 0] [box_f, box_g]) False =
     Some ([crossing [0, 1] [box_g, box_f]], None)"
  apply (subst moncat_normalize.simps)
  apply (simp add: crossing_def box_f_def box_g_def exchangeable_def interchange_def
      moncat_interchange_def exchange_def)
  apply (subst moncat_normalize.simps)
  apply (simp add: crossing_def box_f_def box_g_def exchangeable_def interchange_def
      moncat_interchange_def exchange_def)
  done

lemma normalize_crossing_snake:
  "normalize moncat_normalize crossing_snake False =
     Some ([crossing [1, 0] [box_f, box_g], crossing [0, 1] [box_g, box_f]], None)"
  by (simp add: normalize_def remove_snakes_crossing_snake moncat_normalize_crossing)

section \<open>The run of \<open>normalize\<close>\<close>

text \<open>
  C1. For every well-formed diagram (one offset per box, every cup and every cap on
  two wires, as the constructors build them) the loop of \<open>normalize\<close> returns: it
  yields finitely many diagrams, raises nothing, and ends on a diagram on which
  \<open>find_move\<close> returns \<open>None\<close>. \<open>normalize\<close> then forwards to the normaliser of the
  monoidal layer on that diagram, and yields finitely many diagrams exactly when that
  normaliser ends; then it raises nothing, and the last diagram it yields has no
  yankable pair.
\<close>

theorem normalize_snake_free_when_finite:
  assumes "well_formed d"
  shows "\<exists>ys d'. remove_snakes d = Some (ys, Inr d') \<and> find_move d' = None \<and>
           (normalize moncat_normalize d left = None) = (moncat_normalize d' left = None) \<and>
           (\<forall>zs st. normalize moncat_normalize d left = Some (zs, st) \<longrightarrow>
              st = None \<and> (zs \<noteq> [] \<longrightarrow> find_move (last zs) = None))"
proof -
  from remove_snakes_terminates [OF assms]
  obtain ys d' where r: "remove_snakes d = Some (ys, Inr d')" and w: "well_formed d'" by blast
  from remove_snakes_ends [OF r]
  have d': "d' = last (d # ys)" and f: "find_move d' = None"
    by (auto simp add: run_ends_def)
  have fin: "(normalize moncat_normalize d left = None) = (moncat_normalize d' left = None)"
    by (simp add: normalize_def r split: option.splits)
  have all: "st = None \<and> (zs \<noteq> [] \<longrightarrow> find_move (last zs) = None)"
    if n: "normalize moncat_normalize d left = Some (zs, st)" for zs st
  proof -
    from n obtain ts where t: "moncat_normalize d' left = Some (ts, st)" and zs: "zs = ys @ ts"
      by (auto simp: normalize_def r split: option.splits)
    from moncat_normalize_keeps [OF t w f]
    have st: "st = None" and ts: "\<forall>z\<in>set ts. find_move z = None" by simp_all
    have "find_move (last zs) = None" if "zs \<noteq> []"
    proof (cases "ts = []")
      case True
      then show ?thesis using that d' f zs by simp
    next
      case False
      then have "last zs \<in> set ts" using zs by simp
      then show ?thesis using ts by blast
    qed
    then show ?thesis using st by blast
  qed
  show ?thesis
    apply (rule exI [of _ ys])
    apply (rule exI [of _ d'])
    using r f fin all by auto
qed

theorem normalize_snake_free_when_finite_witness:
  "well_formed crossing_snake \<and>
   normalize moncat_normalize crossing_snake False =
     Some ([crossing [1, 0] [box_f, box_g], crossing [0, 1] [box_g, box_f]], None) \<and>
   find_move (crossing [0, 1] [box_g, box_f]) = None"
proof -
  let ?zs = "[crossing [1, 0] [box_f, box_g], crossing [0, 1] [box_g, box_f]]"
  from normalize_snake_free_when_finite [OF well_formed_crossing_snake, of False]
  have "\<forall>zs st. normalize moncat_normalize crossing_snake False = Some (zs, st) \<longrightarrow>
          st = None \<and> (zs \<noteq> [] \<longrightarrow> find_move (last zs) = None)"
    by blast
  then have "find_move (last ?zs) = None"
    using normalize_crossing_snake by blast
  then show ?thesis
    using well_formed_crossing_snake normalize_crossing_snake by simp
qed

text \<open>
  The normaliser of the monoidal layer does not end on every diagram. On \<open>s0 @ s1\<close>,
  two boxes without wires, \<open>find_move\<close> finds nothing and every pass exchanges the two
  boxes: \<open>normalize\<close> yields \<open>s1 >> s0\<close>, \<open>s0 >> s1\<close>, \<open>s1 >> s0\<close> and so on, for ever.
\<close>

theorem normalize_two_scalars_never_ends:
  "well_formed two_scalars \<and>
   remove_snakes two_scalars = Some ([], Inr two_scalars) \<and>
   normalize moncat_normalize two_scalars False = None \<and>
   moncat_rounds 3 two_scalars False =
     [scalars ''s1'' ''s0'', scalars ''s0'' ''s1'', scalars ''s1'' ''s0'']"
  using well_formed_two_scalars two_scalars_run two_scalars_rounds
    remove_snakes_scalars [of "''s0''" "''s1''"]
  by (simp add: two_scalars_eq)

text \<open>
  C2. Every diagram yielded by the loop of \<open>normalize\<close>, by an interchange or by the
  deletion of a cup and a cap, has the domain and the codomain of the input; so has
  every diagram yielded by \<open>normalize\<close>, when the normaliser of the monoidal layer
  keeps the domain and the codomain of the diagram it is handed. The run whose
  diagrams these are exists for every well-formed diagram.
\<close>

theorem normalize_keeps_dom_cod:
  "(remove_snakes d = Some (ys, r) \<longrightarrow>
      (\<forall>y\<in>set ys. dom_ty y = dom_ty d \<and> cod_ty y = cod_ty d)) \<and>
   (normalize monoidal d left = Some (zs, st) \<and>
      (\<forall>d' ts st'. monoidal d' left = Some (ts, st') \<longrightarrow>
         (\<forall>y\<in>set ts. dom_ty y = dom_ty d' \<and> cod_ty y = cod_ty d')) \<longrightarrow>
      (\<forall>y\<in>set zs. dom_ty y = dom_ty d \<and> cod_ty y = cod_ty d)) \<and>
   (well_formed d \<longrightarrow> (\<exists>ys r. remove_snakes d = Some (ys, r)))"
proof (intro conjI impI)
  assume "remove_snakes d = Some (ys, r)"
  from remove_snakes_ends [OF this]
  show "\<forall>y\<in>set ys. dom_ty y = dom_ty d \<and> cod_ty y = cod_ty d"
    by (simp add: run_ends_def same_ends_def)
next
  assume a: "normalize monoidal d left = Some (zs, st) \<and>
      (\<forall>d' ts st'. monoidal d' left = Some (ts, st') \<longrightarrow>
         (\<forall>y\<in>set ts. dom_ty y = dom_ty d' \<and> cod_ty y = cod_ty d'))"
  then obtain res where res: "remove_snakes d = Some res"
    by (cases "remove_snakes d") (auto simp: normalize_def)
  obtain ys r where yr: "res = (ys, r)" by (cases res)
  have run: "run_ends d (ys, r)" using remove_snakes_ends [OF res] yr by simp
  show "\<forall>y\<in>set zs. dom_ty y = dom_ty d \<and> cod_ty y = cod_ty d"
  proof (cases r)
    case (Inl e)
    with a res yr run show ?thesis
      by (auto simp: normalize_def run_ends_def same_ends_def)
  next
    case (Inr d')
    obtain ts st' where t: "monoidal d' left = Some (ts, st')"
      using a res yr Inr by (cases "monoidal d' left") (auto simp: normalize_def)
    have d': "same_ends d d'"
      using run Inr same_ends_last [of ys d] by (auto simp: run_ends_def)
    have "\<forall>y\<in>set ts. dom_ty y = dom_ty d' \<and> cod_ty y = cod_ty d'"
      using a t by blast
    then have "\<forall>y\<in>set ts. dom_ty y = dom_ty d \<and> cod_ty y = cod_ty d"
      using d' by (simp add: same_ends_def)
    moreover have "zs = ys @ ts"
      using a res yr Inr t by (simp add: normalize_def)
    ultimately show ?thesis
      using run by (auto simp: run_ends_def same_ends_def)
  qed
next
  assume "well_formed d"
  from remove_snakes_terminates [OF this]
  show "\<exists>ys r. remove_snakes d = Some (ys, r)" by blast
qed

theorem normalize_keeps_dom_cod_witness:
  "remove_snakes (double_snake (Ob ''a'' 0) (Ob ''b'' 0)) =
     Some ([two_snakes (Ob ''a'' 0) (Ob ''b'' 0), one_snake (Ob ''a'' 0) (Ob ''b'' 0),
            Id_diagram [Ob ''b'' 1, Ob ''a'' 1]], Inr (Id_diagram [Ob ''b'' 1, Ob ''a'' 1])) \<and>
   dom_ty (two_snakes (Ob ''a'' 0) (Ob ''b'' 0)) = dom_ty (double_snake (Ob ''a'' 0) (Ob ''b'' 0)) \<and>
   cod_ty (two_snakes (Ob ''a'' 0) (Ob ''b'' 0)) = cod_ty (double_snake (Ob ''a'' 0) (Ob ''b'' 0)) \<and>
   normalize (\<lambda>d left. Some ([d], None)) (double_snake (Ob ''a'' 0) (Ob ''b'' 0)) False =
     Some ([two_snakes (Ob ''a'' 0) (Ob ''b'' 0), one_snake (Ob ''a'' 0) (Ob ''b'' 0),
            Id_diagram [Ob ''b'' 1, Ob ''a'' 1], Id_diagram [Ob ''b'' 1, Ob ''a'' 1]], None) \<and>
   dom_ty (Id_diagram [Ob ''b'' 1, Ob ''a'' 1]) = dom_ty (double_snake (Ob ''a'' 0) (Ob ''b'' 0)) \<and>
   cod_ty (Id_diagram [Ob ''b'' 1, Ob ''a'' 1]) = cod_ty (double_snake (Ob ''a'' 0) (Ob ''b'' 0))"
proof -
  let ?d = "double_snake (Ob ''a'' 0) (Ob ''b'' 0)"
  let ?ys = "[two_snakes (Ob ''a'' 0) (Ob ''b'' 0), one_snake (Ob ''a'' 0) (Ob ''b'' 0),
            Id_diagram [Ob ''b'' 1, Ob ''a'' 1]]"
  have r: "remove_snakes ?d = Some (?ys, Inr (Id_diagram [Ob ''b'' 1, Ob ''a'' 1]))"
    using remove_snakes_double [of "Ob ''a'' 0" "Ob ''b'' 0"] by (simp add: Ob_r_def)
  have n: "normalize (\<lambda>d left. Some ([d], None)) ?d False =
     Some (?ys @ [Id_diagram [Ob ''b'' 1, Ob ''a'' 1]], None)"
    by (simp add: normalize_def r)
  have h: "\<forall>d' ts st'. (\<lambda>d left. Some ([d], None)) d' False = Some (ts, st') \<longrightarrow>
      (\<forall>y\<in>set ts. dom_ty y = dom_ty d' \<and> cod_ty y = cod_ty d')"
    by auto
  from normalize_keeps_dom_cod [of ?d ?ys "Inr (Id_diagram [Ob ''b'' 1, Ob ''a'' 1])"
      "\<lambda>d left. Some ([d], None)" False "?ys @ [Id_diagram [Ob ''b'' 1, Ob ''a'' 1]]" None] r n h
  have "(\<forall>y\<in>set ?ys. dom_ty y = dom_ty ?d \<and> cod_ty y = cod_ty ?d) \<and>
        (\<forall>y\<in>set (?ys @ [Id_diagram [Ob ''b'' 1, Ob ''a'' 1]]). dom_ty y = dom_ty ?d \<and> cod_ty y = cod_ty ?d)"
    by blast
  with r n show ?thesis by simp
qed

section \<open>The examples of the docstrings\<close>

text \<open>
  The definitions modelled from the specification reproduce the examples the source
  documents: the nested cups of \<open>Diagram.cups\<close>, the two interchanges printed in
  \<open>Diagram.interchange\<close>, and the three diagrams printed in \<open>Diagram.normalize\<close>,
  after which the normaliser of the monoidal layer yields nothing.
\<close>

lemma docstring_cups:
  "cups [Ob ''a'' 0] (Ty_r [Ob ''a'' 0]) =
     try_then (Cup [Ob ''a'' 0] (Ty_r [Ob ''a'' 0])) (\<lambda>c. Inr (box_diagram c))"
  "cups (tensor_ty [Ob ''a'' 0] [Ob ''b'' 0]) (Ty_r (tensor_ty [Ob ''a'' 0] [Ob ''b'' 0])) =
     try_then (Cup [Ob ''b'' 0] (Ty_r [Ob ''b'' 0])) (\<lambda>cb.
     try_then (Cup [Ob ''a'' 0] (Ty_r [Ob ''a'' 0])) (\<lambda>ca.
       then_diagram
         (tensor (tensor (Id_diagram [Ob ''a'' 0]) (box_diagram cb)) (Id_diagram (Ty_r [Ob ''a'' 0])))
         (box_diagram ca)))"
  by (simp_all add: cups_def cups_layer_def slice_def Cup_def tensor_ty_def tensor_def
      Id_diagram_def box_diagram_def then_diagram_def Ob_r_def Ty_r_def upt_rec)

lemma docstring_interchange:
  "interchange \<lparr>dom_ty = [Ob ''x'' 0, Ob ''x'' 1], cod_ty = [Ob ''x'' 0, Ob ''x'' (- 1)],
       boxes = [CupBox [Ob ''x'' 0, Ob ''x'' 1], CapBox [Ob ''x'' 0, Ob ''x'' (- 1)]],
       offsets = [0, 0]\<rparr> 0 1 False =
     Inr \<lparr>dom_ty = [Ob ''x'' 0, Ob ''x'' 1], cod_ty = [Ob ''x'' 0, Ob ''x'' (- 1)],
       boxes = [CapBox [Ob ''x'' 0, Ob ''x'' (- 1)], CupBox [Ob ''x'' 0, Ob ''x'' 1]],
       offsets = [0, 2]\<rparr>"
  "interchange \<lparr>dom_ty = [Ob ''x'' 0, Ob ''x'' 1], cod_ty = [Ob ''x'' 0, Ob ''x'' (- 1)],
       boxes = [CupBox [Ob ''x'' 0, Ob ''x'' 1], CapBox [Ob ''x'' 0, Ob ''x'' (- 1)]],
       offsets = [0, 0]\<rparr> 0 1 True =
     Inr \<lparr>dom_ty = [Ob ''x'' 0, Ob ''x'' 1], cod_ty = [Ob ''x'' 0, Ob ''x'' (- 1)],
       boxes = [CapBox [Ob ''x'' 0, Ob ''x'' (- 1)], CupBox [Ob ''x'' 0, Ob ''x'' 1]],
       offsets = [2, 0]\<rparr>"
  by (simp_all add: interchange_def moncat_interchange_def exchange_def upt_rec)


lemma docstring_normalize:
  "remove_snakes
     \<lparr>dom_ty = [Ob ''s'' 0, Ob ''n'' 0], cod_ty = [Ob ''n'' 0, Ob ''s'' 0],
      boxes = [Box ''g'' [Ob ''s'' 0, Ob ''n'' 0] [Ob ''n'' 0] None False,
               CapBox [Ob ''n'' 1, Ob ''n'' 0],
               Box ''f'' [Ob ''n'' 0] [Ob ''n'' 0] None True,
               Box ''f'' [Ob ''n'' 0] [Ob ''n'' 0] None False,
               CupBox [Ob ''n'' 0, Ob ''n'' 1],
               Box ''h'' [Ob ''n'' 0] [Ob ''n'' 0, Ob ''s'' 0] None False],
      offsets = [0, 1, 0, 2, 0, 0]\<rparr> =
   Some ([\<lparr>dom_ty = [Ob ''s'' 0, Ob ''n'' 0], cod_ty = [Ob ''n'' 0, Ob ''s'' 0],
           boxes = [Box ''g'' [Ob ''s'' 0, Ob ''n'' 0] [Ob ''n'' 0] None False,
                    Box ''f'' [Ob ''n'' 0] [Ob ''n'' 0] None True,
                    CapBox [Ob ''n'' 1, Ob ''n'' 0],
                    Box ''f'' [Ob ''n'' 0] [Ob ''n'' 0] None False,
                    CupBox [Ob ''n'' 0, Ob ''n'' 1],
                    Box ''h'' [Ob ''n'' 0] [Ob ''n'' 0, Ob ''s'' 0] None False],
           offsets = [0, 0, 1, 2, 0, 0]\<rparr>,
          \<lparr>dom_ty = [Ob ''s'' 0, Ob ''n'' 0], cod_ty = [Ob ''n'' 0, Ob ''s'' 0],
           boxes = [Box ''g'' [Ob ''s'' 0, Ob ''n'' 0] [Ob ''n'' 0] None False,
                    Box ''f'' [Ob ''n'' 0] [Ob ''n'' 0] None True,
                    CapBox [Ob ''n'' 1, Ob ''n'' 0],
                    CupBox [Ob ''n'' 0, Ob ''n'' 1],
                    Box ''f'' [Ob ''n'' 0] [Ob ''n'' 0] None False,
                    Box ''h'' [Ob ''n'' 0] [Ob ''n'' 0, Ob ''s'' 0] None False],
           offsets = [0, 0, 1, 0, 0, 0]\<rparr>,
          \<lparr>dom_ty = [Ob ''s'' 0, Ob ''n'' 0], cod_ty = [Ob ''n'' 0, Ob ''s'' 0],
           boxes = [Box ''g'' [Ob ''s'' 0, Ob ''n'' 0] [Ob ''n'' 0] None False,
                    Box ''f'' [Ob ''n'' 0] [Ob ''n'' 0] None True,
                    Box ''f'' [Ob ''n'' 0] [Ob ''n'' 0] None False,
                    Box ''h'' [Ob ''n'' 0] [Ob ''n'' 0, Ob ''s'' 0] None False],
           offsets = [0, 0, 0, 0]\<rparr>],
         Inr \<lparr>dom_ty = [Ob ''s'' 0, Ob ''n'' 0], cod_ty = [Ob ''n'' 0, Ob ''s'' 0],
           boxes = [Box ''g'' [Ob ''s'' 0, Ob ''n'' 0] [Ob ''n'' 0] None False,
                    Box ''f'' [Ob ''n'' 0] [Ob ''n'' 0] None True,
                    Box ''f'' [Ob ''n'' 0] [Ob ''n'' 0] None False,
                    Box ''h'' [Ob ''n'' 0] [Ob ''n'' 0, Ob ''s'' 0] None False],
           offsets = [0, 0, 0, 0]\<rparr>)"
  apply (subst remove_snakes.simps)
  apply (simp add: find_move_def upt_rec try_leg_def follow_wire_def follow_wire_loop.simps
      move_def interchange_def moncat_interchange_def exchange_def cut_def py_take_def py_drop_def)
  apply (subst remove_snakes.simps)
  apply (simp add: find_move_def upt_rec try_leg_def follow_wire_def follow_wire_loop.simps)
  done

lemma docstring_normalize_monoidal:
  "moncat_normalize
     \<lparr>dom_ty = [Ob ''s'' 0, Ob ''n'' 0], cod_ty = [Ob ''n'' 0, Ob ''s'' 0],
      boxes = [Box ''g'' [Ob ''s'' 0, Ob ''n'' 0] [Ob ''n'' 0] None False,
               Box ''f'' [Ob ''n'' 0] [Ob ''n'' 0] None True,
               Box ''f'' [Ob ''n'' 0] [Ob ''n'' 0] None False,
               Box ''h'' [Ob ''n'' 0] [Ob ''n'' 0, Ob ''s'' 0] None False],
      offsets = [0, 0, 0, 0]\<rparr> False = Some ([], None)"
  by (subst moncat_normalize.simps) (simp add: upt_rec exchangeable_def)

end
